theory Spec2Isabelle
  imports Complex_Main "HOL-Library.Char_ord" "HOL-Library.List_Lexorder" "HOL-Library.Sublist"
begin

section \<open>Numbers\<close>

text \<open>
  A JavaScript \<^verbatim>\<open>number\<close> is a double. Where the code holds a count, an identifier or
  the line total of a record in it, the model has an \<^typ>\<open>int\<close>; where a \<^verbatim>\<open>number\<close> is
  computed with (a series value, a sum, a window size, a loop counter, a percentile),
  the model has a \<open>jsnumber\<close>, and every operation rounds as the double operation does.
\<close>

subsection \<open>Rounding to a double\<close>

text \<open>
  A finite double is given by its exact value, a rational. \<open>to_double\<close> rounds a rational
  to the nearest double, ties to even, as if the exponent had no upper bound: 53
  significant bits from \<open>2^-1022\<close> on, the multiples of \<open>2^-1074\<close> below (the subnormal
  numbers; what is nearer to zero than to \<open>2^-1074\<close> becomes zero).
\<close>

function bit_length :: "int \<Rightarrow> int" where
  "bit_length n = (if n \<le> 0 then 0 else 1 + bit_length (n div 2))"
  by pat_completeness auto
termination
  by (relation "measure nat") auto

declare bit_length.simps [simp del]

text \<open>The powers of two, by repeated squaring.\<close>

function two_power :: "int \<Rightarrow> rat" where
  "two_power k =
     (if k \<le> 0 then 1
      else (let h = two_power (k div 2) in if even k then h * h else 2 * (h * h)))"
  by pat_completeness auto
termination
  by (relation "measure nat") auto

declare two_power.simps [simp del]

definition pow2 :: "int \<Rightarrow> rat" where
  "pow2 k = (if 0 \<le> k then two_power k else 1 / two_power (- k))"

definition binary_exponent :: "rat \<Rightarrow> int" where
  "binary_exponent x =
     (let (n, d) = quotient_of x;
          k = bit_length n - bit_length d
      in if pow2 k \<le> x then k else k - 1)"

definition round_half_even :: "rat \<Rightarrow> int" where
  "round_half_even q =
     (let f = \<lfloor>q\<rfloor>; r = q - of_int f
      in if r < 1 / 2 then f else if 1 / 2 < r then f + 1 else if even f then f else f + 1)"

definition to_double :: "rat \<Rightarrow> rat" where
  "to_double x =
     (if x = 0 then 0
      else (let e = max (binary_exponent \<bar>x\<bar>) (- 1022)
            in sgn x * of_int (round_half_even (\<bar>x\<bar> * pow2 (52 - e))) * pow2 (e - 52)))"

text \<open>
  The quotient of two finite doubles whose result is finite (a count or a number of
  milliseconds divided by a positive whole number).
\<close>

definition js_div :: "rat \<Rightarrow> rat \<Rightarrow> rat" where
  "js_div a b = to_double (a / b)"

subsection \<open>The values of \<^verbatim>\<open>number\<close>\<close>

text \<open>
  \<open>Finite x\<close> is the finite double of value \<open>x\<close>. The two zeros are one value, \<open>Finite 0\<close>: the
  modelled code compares numbers with \<^verbatim>\<open><=\<close>, \<^verbatim>\<open><\<close>, \<^verbatim>\<open>>=\<close> and \<^verbatim>\<open>>\<close> and indexes arrays with
  them, which \<open>-0\<close> and \<open>+0\<close> do alike, and it divides by the constants 2 and 100 and by a
  positive count only (a zero divisor is taken as \<open>+0\<close>).
  A rounded result of magnitude \<open>2^1024\<close> or more (binary exponent 1024 or more) is an
  infinity.
\<close>

datatype jsnumber = Finite rat | NaN | PosInf | NegInf

definition round_double :: "rat \<Rightarrow> jsnumber" where
  "round_double x =
     (let r = to_double x
      in if r \<noteq> 0 \<and> 1024 \<le> binary_exponent \<bar>r\<bar>
         then (if 0 < r then PosInf else NegInf)
         else Finite r)"

fun num_neg :: "jsnumber \<Rightarrow> jsnumber" where
  "num_neg (Finite a) = Finite (- a)"
| "num_neg NaN = NaN"
| "num_neg PosInf = NegInf"
| "num_neg NegInf = PosInf"

fun num_add :: "jsnumber \<Rightarrow> jsnumber \<Rightarrow> jsnumber" where
  "num_add (Finite a) (Finite b) = round_double (a + b)"
| "num_add NaN y = NaN"
| "num_add x NaN = NaN"
| "num_add PosInf NegInf = NaN"
| "num_add NegInf PosInf = NaN"
| "num_add PosInf y = PosInf"
| "num_add x PosInf = PosInf"
| "num_add NegInf y = NegInf"
| "num_add x NegInf = NegInf"

definition num_sub :: "jsnumber \<Rightarrow> jsnumber \<Rightarrow> jsnumber" where
  "num_sub x y = num_add x (num_neg y)"

text \<open>The sign of a number: 1, 0 or -1 (\<open>NaN\<close> has none and is 0 here).\<close>

fun num_sign :: "jsnumber \<Rightarrow> int" where
  "num_sign (Finite a) = (if 0 < a then 1 else if a < 0 then - 1 else 0)"
| "num_sign NaN = 0"
| "num_sign PosInf = 1"
| "num_sign NegInf = - 1"

definition signed_infinity :: "int \<Rightarrow> jsnumber" where
  "signed_infinity s = (if 0 < s then PosInf else if s < 0 then NegInf else NaN)"

fun num_mul :: "jsnumber \<Rightarrow> jsnumber \<Rightarrow> jsnumber" where
  "num_mul (Finite a) (Finite b) = round_double (a * b)"
| "num_mul NaN y = NaN"
| "num_mul x NaN = NaN"
| "num_mul x y = signed_infinity (num_sign x * num_sign y)"

fun num_div :: "jsnumber \<Rightarrow> jsnumber \<Rightarrow> jsnumber" where
  "num_div (Finite a) (Finite b) =
     (if b = 0 then signed_infinity (num_sign (Finite a)) else round_double (a / b))"
| "num_div NaN y = NaN"
| "num_div x NaN = NaN"
| "num_div (Finite a) y = Finite 0"
| "num_div x (Finite b) = signed_infinity (num_sign x * (if b < 0 then - 1 else 1))"
| "num_div x y = NaN"

text \<open>\<^verbatim>\<open>Math.floor\<close>; the floor of a double is a double.\<close>

fun num_floor :: "jsnumber \<Rightarrow> jsnumber" where
  "num_floor (Finite a) = Finite (of_int \<lfloor>a\<rfloor>)"
| "num_floor x = x"

text \<open>\<^verbatim>\<open>x <= y\<close> and \<^verbatim>\<open>x < y\<close>: false as soon as one side is \<open>NaN\<close>.\<close>

fun num_le :: "jsnumber \<Rightarrow> jsnumber \<Rightarrow> bool" where
  "num_le (Finite a) (Finite b) = (a \<le> b)"
| "num_le NaN y = False"
| "num_le x NaN = False"
| "num_le NegInf y = True"
| "num_le x PosInf = True"
| "num_le x y = False"

fun num_lt :: "jsnumber \<Rightarrow> jsnumber \<Rightarrow> bool" where
  "num_lt (Finite a) (Finite b) = (a < b)"
| "num_lt NaN y = False"
| "num_lt x NaN = False"
| "num_lt PosInf y = False"
| "num_lt x NegInf = False"
| "num_lt x y = True"

text \<open>\<^verbatim>\<open>Math.min\<close> of two numbers: \<open>NaN\<close> if one of them is.\<close>

fun num_min :: "jsnumber \<Rightarrow> jsnumber \<Rightarrow> jsnumber" where
  "num_min NaN y = NaN"
| "num_min x NaN = NaN"
| "num_min x y = (if num_le x y then x else y)"

text \<open>
  \<^verbatim>\<open>xs[j]\<close> for a number \<open>j\<close>: the element at \<open>j\<close> when \<open>j\<close> is a whole number inside the
  array, \<^verbatim>\<open>undefined\<close> otherwise (a \<^verbatim>\<open>null\<close> or \<^verbatim>\<open>undefined\<close> element is \<open>None\<close> too).
\<close>

fun array_get :: "'a option list \<Rightarrow> jsnumber \<Rightarrow> 'a option" where
  "array_get xs (Finite q) =
     (if of_int \<lfloor>q\<rfloor> = q \<and> 0 \<le> q \<and> \<lfloor>q\<rfloor> < int (length xs) then xs ! nat \<lfloor>q\<rfloor> else None)"
| "array_get xs j = None"

text \<open>
  \<^verbatim>\<open>xs.sort(cmp)\<close> on a copy: the sort is stable, and an element moves behind another
  only when the comparator is positive on the pair (a comparator result \<open>NaN\<close> counts as
  zero).
\<close>

fun insert_by :: "('a \<Rightarrow> 'a \<Rightarrow> jsnumber) \<Rightarrow> 'a \<Rightarrow> 'a list \<Rightarrow> 'a list" where
  "insert_by cmp x [] = [x]"
| "insert_by cmp x (y # ys) =
     (if num_lt (Finite 0) (cmp x y) then y # insert_by cmp x ys else x # y # ys)"

definition array_sort :: "('a \<Rightarrow> 'a \<Rightarrow> jsnumber) \<Rightarrow> 'a list \<Rightarrow> 'a list" where
  "array_sort cmp xs = foldr (insert_by cmp) xs []"

section \<open>Moving average (\<^verbatim>\<open>src/utils/dataProcessing.ts\<close>)\<close>

text \<open>
  The inner loop \<^verbatim>\<open>for (let j = i - halfWindow; j <= i + halfWindow; j++)\<close>. The counter
  \<open>j\<close> is a number: \<^verbatim>\<open>j++\<close> adds 1 and rounds, so a counter of large magnitude may stay
  where it is and the loop may go on forever, which is the value \<open>None\<close>. An entry is
  added to \<open>sum\<close> when \<open>j\<close> is inside the array and the entry is neither \<^verbatim>\<open>null\<close> nor
  \<^verbatim>\<open>undefined\<close> (\<open>None\<close> here); \<open>count\<close> never exceeds the length of the array and is a
  natural number.
\<close>

partial_function (option) window_loop ::
  "jsnumber option list \<Rightarrow> jsnumber \<Rightarrow> jsnumber \<Rightarrow> jsnumber \<times> nat \<Rightarrow> (jsnumber \<times> nat) option" where
  "window_loop data j hi acc =
     (if num_le j hi
      then window_loop data (num_add j (Finite 1)) hi
             (if num_le (Finite 0) j \<and> num_lt j (Finite (of_nat (length data)))
              then (case array_get data j of
                      Some v \<Rightarrow> (num_add (fst acc) v, snd acc + 1)
                    | None \<Rightarrow> acc)
              else acc)
      else Some acc)"

declare window_loop.simps [code]

text \<open>
  The outer loop \<^verbatim>\<open>for (let i = 0; i < data.length; i++)\<close>, pushing onto \<open>result\<close>; the
  index \<open>i\<close> stays below the length of the array.
\<close>

function average_loop ::
  "jsnumber option list \<Rightarrow> jsnumber \<Rightarrow> nat \<Rightarrow> jsnumber list \<Rightarrow> jsnumber list option" where
  "average_loop data halfWindow i result =
     (if i < length data
      then (case window_loop data (num_sub (Finite (of_nat i)) halfWindow)
                   (num_add (Finite (of_nat i)) halfWindow) (Finite 0, 0) of
              None \<Rightarrow> None
            | Some (s, c) \<Rightarrow>
                average_loop data halfWindow (i + 1)
                  (result @ [if c > 0 then num_div s (Finite (of_nat c)) else Finite 0]))
      else Some result)"
  by pat_completeness auto
termination
  by (relation "measure (\<lambda>(data, h, i, result). length data - i)") auto

declare average_loop.simps [simp del]

text \<open>
  What one round of the outer loop pushes when the counter of the inner loop is exact: the
  rounded mean over the indices of \<open>[i - h, i + h]\<close> inside the array.
\<close>

definition mean_at :: "jsnumber list \<Rightarrow> int \<Rightarrow> nat \<Rightarrow> jsnumber" where
  "mean_at xs h i =
     (let W = filter (\<lambda>k. 0 \<le> k \<and> k < int (length xs)) [int i - h..int i + h]
      in if length W > 0
         then num_div (foldl num_add (Finite 0) (map (\<lambda>k. xs ! nat k) W)) (Finite (of_nat (length W)))
         else Finite 0)"

definition calculateMovingAverage ::
  "jsnumber option list \<Rightarrow> jsnumber \<Rightarrow> jsnumber option list option" where
  "calculateMovingAverage data windowSize =
     (if num_le windowSize (Finite 1) then Some data
      else map_option (map Some)
             (average_loop data (num_floor (num_div windowSize (Finite 2))) 0 []))"

text \<open>
  The index window the specification describes for position \<open>i\<close>: the indices of
  \<open>[i - \<lfloor>windowSize / 2\<rfloor>, i + \<lfloor>windowSize / 2\<rfloor>]\<close> that lie inside a series of length \<open>n\<close>.
\<close>

definition spec_window :: "nat \<Rightarrow> rat \<Rightarrow> nat \<Rightarrow> int list" where
  "spec_window n windowSize i =
     filter (\<lambda>j. 0 \<le> j \<and> j < int n) [int i - \<lfloor>windowSize / 2\<rfloor> .. int i + \<lfloor>windowSize / 2\<rfloor>]"

text \<open>
  The arithmetic mean of the specification: the exact sum of the values in the window,
  divided by their number.
\<close>

definition spec_mean :: "rat list \<Rightarrow> rat \<Rightarrow> nat \<Rightarrow> rat" where
  "spec_mean xs windowSize i =
     sum_list (map (\<lambda>j. xs ! nat j) (spec_window (length xs) windowSize i))
       / of_nat (length (spec_window (length xs) windowSize i))"

text \<open>
  The mean as doubles compute it: the values of the window added to 0 from left to
  right, each sum rounded, and the last sum divided by the number of values, rounded.
\<close>

definition double_mean :: "jsnumber list \<Rightarrow> rat \<Rightarrow> nat \<Rightarrow> jsnumber" where
  "double_mean xs windowSize i =
     num_div (foldl num_add (Finite 0) (map (\<lambda>j. xs ! nat j) (spec_window (length xs) windowSize i)))
       (Finite (of_nat (length (spec_window (length xs) windowSize i))))"

section \<open>The fetcher (\<^verbatim>\<open>fetch-pr-velocity.ts\<close>, the variant with line statistics)\<close>

text \<open>
  The canonical record, as both programs declare it.
\<close>

record PRRecord =
  author :: string
  authorEmail :: string
  project :: string
  repository :: string
  closedDate :: string
  prId :: int
  title :: string
  linesAdded :: int
  linesDeleted :: int

subsection \<open>The upstream\<close>

text \<open>
  What an awaited \<^verbatim>\<open>fetch\<close> followed by \<^verbatim>\<open>response.json()\<close> can do: throw (the
  promise rejects, or the body is no JSON), answer with a status outside 200..299
  (\<^verbatim>\<open>response.ok\<close> false), or deliver a body.
\<close>

datatype 'a response = Rejected | NotOk nat | Ok 'a

text \<open>
  The body of a commit: \<^verbatim>\<open>changeCounts?: { Add?: number, Edit?: number, Delete?: number }\<close>.
\<close>

record changeCounts =
  Add :: "int option"
  Edit :: "int option"
  Delete :: "int option"

text \<open>An item of a pull-request page, with the fields the fetcher reads.\<close>

record creator =
  displayName :: "string option"
  uniqueName :: "string option"

record pr_item =
  item_closedDate :: "string option"
  createdBy :: "creator option"
  pullRequestId :: "int option"
  item_title :: "string option"

text \<open>
  The three endpoints the fetcher calls for one repository, as functions of what the
  request URL carries; a list body is the field \<^verbatim>\<open>value\<close>, which may be absent.
  The two operations of the runtime's \<^verbatim>\<open>Date\<close> that the fetcher uses are parameters
  too: \<open>newDate\<close> is \<^verbatim>\<open>new Date(s)\<close> read as milliseconds since the epoch (\<open>None\<close>
  for an invalid date), \<open>isoDate\<close> is \<^verbatim>\<open>d.toISOString().split("T")[0]\<close>.
\<close>

record upstream =
  pullrequests :: "string \<Rightarrow> string \<Rightarrow> nat \<Rightarrow> nat \<Rightarrow> pr_item list option response"
  commits :: "string \<Rightarrow> string \<Rightarrow> int option \<Rightarrow> string list option response"
  commit :: "string \<Rightarrow> string \<Rightarrow> string \<Rightarrow> changeCounts option response"
  newDate :: "string \<Rightarrow> int option"
  isoDate :: "int \<Rightarrow> string"

text \<open>\<^verbatim>\<open>x || 0\<close> on an optional number, \<^verbatim>\<open>x || d\<close> on an optional string, \<^verbatim>\<open>x || []\<close>.\<close>

definition or_zero :: "int option \<Rightarrow> int" where
  "or_zero x = (case x of None \<Rightarrow> 0 | Some n \<Rightarrow> n)"

definition or_string :: "string option \<Rightarrow> string \<Rightarrow> string" where
  "or_string x d = (case x of None \<Rightarrow> d | Some s \<Rightarrow> if s = [] then d else s)"

definition or_empty :: "'a list option \<Rightarrow> 'a list" where
  "or_empty x = (case x of None \<Rightarrow> [] | Some xs \<Rightarrow> xs)"

subsection \<open>\<^verbatim>\<open>getPRChangeStats\<close>\<close>

record change_stats =
  added :: int
  deleted :: int

text \<open>
  The loop over the commits of a pull request. \<open>None\<close> is an exception, which leaves the
  loop for the \<^verbatim>\<open>catch\<close> of the function.
\<close>

fun commit_loop :: "upstream \<Rightarrow> string \<Rightarrow> string \<Rightarrow> string list \<Rightarrow> int \<times> int \<Rightarrow> (int \<times> int) option" where
  "commit_loop u projectName repoId [] (totalAdded, totalDeleted) = Some (totalAdded, totalDeleted)"
| "commit_loop u projectName repoId (commitId # rest) (totalAdded, totalDeleted) =
     (case commit u projectName repoId commitId of
        Rejected \<Rightarrow> None
      | NotOk status \<Rightarrow> commit_loop u projectName repoId rest (totalAdded, totalDeleted)
      | Ok commitData \<Rightarrow>
          (case commitData of
             None \<Rightarrow> commit_loop u projectName repoId rest (totalAdded, totalDeleted)
           | Some cc \<Rightarrow>
               (let adds = or_zero (Add cc);
                    edits = or_zero (Edit cc);
                    deletes = or_zero (Delete cc)
                in commit_loop u projectName repoId rest
                     (totalAdded + (adds * 50 + edits * 15),
                      totalDeleted + (deletes * 30 + edits * 5)))))"

definition getPRChangeStats :: "upstream \<Rightarrow> string \<Rightarrow> string \<Rightarrow> int option \<Rightarrow> change_stats" where
  "getPRChangeStats u projectName repoId pullRequest =
     (case commits u projectName repoId pullRequest of
        Rejected \<Rightarrow> \<lparr>added = 0, deleted = 0\<rparr>
      | NotOk status \<Rightarrow> \<lparr>added = 0, deleted = 0\<rparr>
      | Ok commitsData \<Rightarrow>
          (case commit_loop u projectName repoId (or_empty commitsData) (0, 0) of
             None \<Rightarrow> \<lparr>added = 0, deleted = 0\<rparr>
           | Some (totalAdded, totalDeleted) \<Rightarrow> \<lparr>added = totalAdded, deleted = totalDeleted\<rparr>))"

text \<open>
  The estimate the specification gives for one commit, from the answer to its detail request.
\<close>

definition spec_commit_added :: "changeCounts option response \<Rightarrow> int" where
  "spec_commit_added r =
     (case r of Ok (Some cc) \<Rightarrow> or_zero (Add cc) * 50 + or_zero (Edit cc) * 15 | _ \<Rightarrow> 0)"

definition spec_commit_deleted :: "changeCounts option response \<Rightarrow> int" where
  "spec_commit_deleted r =
     (case r of Ok (Some cc) \<Rightarrow> or_zero (Delete cc) * 30 + or_zero (Edit cc) * 5 | _ \<Rightarrow> 0)"

definition succeeded :: "'a response \<Rightarrow> bool" where
  "succeeded r = (case r of Ok x \<Rightarrow> True | _ \<Rightarrow> False)"

subsection \<open>The pagination loop of \<^verbatim>\<open>fetchPRData\<close>\<close>

definition top_size :: nat where
  "top_size = 1000"

text \<open>
  The body of \<^verbatim>\<open>for (const pr of prs)\<close>: an item without \<^verbatim>\<open>closedDate\<close> (absent or
  the empty string) is skipped, an item whose date is not below the cutoff is pushed onto
  \<open>allRecords\<close>. Comparing an invalid date gives false.
\<close>

definition make_record :: "upstream \<Rightarrow> bool \<Rightarrow> string \<Rightarrow> string \<Rightarrow> string \<Rightarrow> pr_item \<Rightarrow> int \<Rightarrow> PRRecord" where
  "make_record u fetchLOCStats projectName repoName repoId pr closedInstant =
     (let stats = (if fetchLOCStats then getPRChangeStats u projectName repoId (pullRequestId pr)
                   else \<lparr>added = 0, deleted = 0\<rparr>)
      in \<lparr>author = or_string (case createdBy pr of None \<Rightarrow> None | Some c \<Rightarrow> displayName c) ''Unknown'',
          authorEmail = or_string (case createdBy pr of None \<Rightarrow> None | Some c \<Rightarrow> uniqueName c) [],
          project = projectName,
          repository = repoName,
          closedDate = isoDate u closedInstant,
          prId = or_zero (pullRequestId pr),
          title = or_string (item_title pr) [],
          linesAdded = added stats,
          linesDeleted = deleted stats\<rparr>)"

fun page_loop :: "upstream \<Rightarrow> bool \<Rightarrow> int \<Rightarrow> string \<Rightarrow> string \<Rightarrow> string \<Rightarrow> pr_item list \<Rightarrow> PRRecord list \<Rightarrow> PRRecord list" where
  "page_loop u fetchLOCStats cutoffDate projectName repoName repoId [] allRecords = allRecords"
| "page_loop u fetchLOCStats cutoffDate projectName repoName repoId (pr # rest) allRecords =
     (case item_closedDate pr of
        None \<Rightarrow> page_loop u fetchLOCStats cutoffDate projectName repoName repoId rest allRecords
      | Some s \<Rightarrow>
          if s = [] then page_loop u fetchLOCStats cutoffDate projectName repoName repoId rest allRecords
          else (case newDate u s of
                  None \<Rightarrow> page_loop u fetchLOCStats cutoffDate projectName repoName repoId rest allRecords
                | Some closedInstant \<Rightarrow>
                    if closedInstant \<ge> cutoffDate
                    then page_loop u fetchLOCStats cutoffDate projectName repoName repoId rest
                           (allRecords @ [make_record u fetchLOCStats projectName repoName repoId pr closedInstant])
                    else page_loop u fetchLOCStats cutoffDate projectName repoName repoId rest allRecords))"

text \<open>
  The loop \<^verbatim>\<open>while (hasMore)\<close> for one repository. The state is \<open>skip\<close> and
  \<open>allRecords\<close>; the list of offsets requested so far is added to it, to count the
  requests. The loop need not end (an upstream may answer every offset with a full page),
  so the function is partial: \<open>None\<close> is a loop that runs forever.
\<close>

partial_function (option) paginate ::
  "upstream \<Rightarrow> bool \<Rightarrow> int \<Rightarrow> string \<Rightarrow> string \<Rightarrow> string \<Rightarrow> nat \<Rightarrow> PRRecord list \<Rightarrow> nat list
     \<Rightarrow> (PRRecord list \<times> nat list) option" where
  "paginate u fetchLOCStats cutoffDate projectName repoName repoId skip allRecords requested =
     (case pullrequests u projectName repoId top_size skip of
        Rejected \<Rightarrow> Some (allRecords, requested @ [skip])
      | NotOk status \<Rightarrow> Some (allRecords, requested @ [skip])
      | Ok prsData \<Rightarrow>
          (let prs = or_empty prsData in
           if length prs = 0 then Some (allRecords, requested @ [skip])
           else (let allRecords' = page_loop u fetchLOCStats cutoffDate projectName repoName repoId prs allRecords in
                 if length prs < top_size then Some (allRecords', requested @ [skip])
                 else paginate u fetchLOCStats cutoffDate projectName repoName repoId (skip + top_size)
                        allRecords' (requested @ [skip]))))"

text \<open>
  The records one page contributes, as the specification describes them: the items that
  carry a completion date which parses to an instant at or after the cutoff.
\<close>

definition spec_qualifies :: "upstream \<Rightarrow> int \<Rightarrow> pr_item \<Rightarrow> bool" where
  "spec_qualifies u cutoffDate pr =
     (case item_closedDate pr of
        None \<Rightarrow> False
      | Some s \<Rightarrow> s \<noteq> [] \<and> (case newDate u s of None \<Rightarrow> False | Some closedInstant \<Rightarrow> cutoffDate \<le> closedInstant))"

text \<open>
  The page the upstream serves for the \<open>k\<close>-th request of a repository (offset \<open>k * top\<close>),
  empty when the request fails; the instant an item was completed; and the record the
  specification derives from a qualifying item.
\<close>

definition page_at :: "upstream \<Rightarrow> string \<Rightarrow> string \<Rightarrow> nat \<Rightarrow> pr_item list" where
  "page_at u projectName repoId k =
     (case pullrequests u projectName repoId top_size (k * top_size) of
        Ok prsData \<Rightarrow> or_empty prsData | _ \<Rightarrow> [])"

definition full_page :: "upstream \<Rightarrow> string \<Rightarrow> string \<Rightarrow> nat \<Rightarrow> bool" where
  "full_page u projectName repoId k =
     (succeeded (pullrequests u projectName repoId top_size (k * top_size))
      \<and> top_size \<le> length (page_at u projectName repoId k))"

definition spec_instant :: "upstream \<Rightarrow> pr_item \<Rightarrow> int" where
  "spec_instant u pr =
     (case item_closedDate pr of
        None \<Rightarrow> 0
      | Some s \<Rightarrow> (case newDate u s of None \<Rightarrow> 0 | Some closedInstant \<Rightarrow> closedInstant))"

definition spec_page_records ::
  "upstream \<Rightarrow> bool \<Rightarrow> int \<Rightarrow> string \<Rightarrow> string \<Rightarrow> string \<Rightarrow> pr_item list \<Rightarrow> PRRecord list" where
  "spec_page_records u fetchLOCStats cutoffDate projectName repoName repoId prs =
     map (\<lambda>pr. make_record u fetchLOCStats projectName repoName repoId pr (spec_instant u pr))
         (filter (spec_qualifies u cutoffDate) prs)"

section \<open>The JavaScript runtime, as far as the dashboard code uses it\<close>

subsection \<open>Strings and decimal numerals\<close>

text \<open>
  A string is a list of characters; every character the code tests for (comma, quote,
  line feed, digits, white space) is ASCII. \<^verbatim>\<open>String(n)\<close> of an integer \<open>n\<close> is its
  decimal numeral (for \<open>|n| < 10^21\<close>; larger numbers print with an exponent and are
  outside the model).
\<close>

definition digit_char :: "int \<Rightarrow> char" where
  "digit_char n = char_of (48 + n)"

definition is_digit :: "char \<Rightarrow> bool" where
  "is_digit c = (CHR ''0'' \<le> c \<and> c \<le> CHR ''9'')"

definition digit_val :: "char \<Rightarrow> int" where
  "digit_val c = of_char c - 48"

function dec :: "int \<Rightarrow> string" where
  "dec n = (if n < 10 then [digit_char n] else dec (n div 10) @ [digit_char (n mod 10)])"
  by pat_completeness auto
termination
  by (relation "measure nat") auto

declare dec.simps [simp del]

definition number_to_string :: "int \<Rightarrow> string" where
  "number_to_string i = (if i < 0 then CHR ''-'' # dec (- i) else dec i)"

text \<open>White space as \<^verbatim>\<open>String.prototype.trim\<close> and \<^verbatim>\<open>parseInt\<close> strip it (the ASCII part).\<close>

definition is_space :: "char \<Rightarrow> bool" where
  "is_space c = (c \<in> {CHR 0x09, CHR 0x0A, CHR 0x0B, CHR 0x0C, CHR 0x0D, CHR '' ''})"

definition trim :: "string \<Rightarrow> string" where
  "trim s = rev (dropWhile is_space (rev (dropWhile is_space s)))"

text \<open>\<^verbatim>\<open>s.split('\n')\<close> and \<^verbatim>\<open>lines.join("\n")\<close>.\<close>

fun split_on :: "char \<Rightarrow> string \<Rightarrow> string list" where
  "split_on sep [] = [[]]"
| "split_on sep (c # cs) =
     (if c = sep then [] # split_on sep cs
      else (case split_on sep cs of
              [] \<Rightarrow> [[c]]
            | piece # pieces \<Rightarrow> (c # piece) # pieces))"

fun join :: "string \<Rightarrow> string list \<Rightarrow> string" where
  "join sep [] = []"
| "join sep [x] = x"
| "join sep (x # y # ys) = x @ sep @ join sep (y # ys)"

text \<open>
  \<^verbatim>\<open>parseInt(s)\<close> without a radix: leading white space and one sign are skipped, a prefix
  \<^verbatim>\<open>0x\<close> selects radix 16, and the longest run of digits is read; no digit gives
  \<^verbatim>\<open>NaN\<close> (\<open>None\<close>). The argument \<^verbatim>\<open>undefined\<close> (an index past the end of
  \<open>values\<close>) is read as the string \<^verbatim>\<open>"undefined"\<close>, hence \<^verbatim>\<open>NaN\<close>. The value is
  the integer the digits spell, which is the number the runtime returns as long as it
  has no more than 53 bits.
\<close>

definition hex_val :: "char \<Rightarrow> int option" where
  "hex_val c =
     (if is_digit c then Some (digit_val c)
      else if CHR ''a'' \<le> c \<and> c \<le> CHR ''f'' then Some (of_char c - 87)
      else if CHR ''A'' \<le> c \<and> c \<le> CHR ''F'' then Some (of_char c - 55)
      else None)"

definition radix_val :: "int \<Rightarrow> char \<Rightarrow> int option" where
  "radix_val radix c = (if radix = 16 then hex_val c else if is_digit c then Some (digit_val c) else None)"

fun read_digits :: "int \<Rightarrow> string \<Rightarrow> int \<Rightarrow> int" where
  "read_digits radix [] acc = acc"
| "read_digits radix (c # cs) acc =
     (case radix_val radix c of
        None \<Rightarrow> acc
      | Some v \<Rightarrow> read_digits radix cs (acc * radix + v))"

definition parse_magnitude :: "string \<Rightarrow> int option" where
  "parse_magnitude s =
     (let (radix, body) =
            (case s of
               c0 # c1 # rest \<Rightarrow> if c0 = CHR ''0'' \<and> (c1 = CHR ''x'' \<or> c1 = CHR ''X'') then (16, rest) else (10, s)
             | _ \<Rightarrow> (10, s))
      in (case body of
            [] \<Rightarrow> None
          | c # cs \<Rightarrow> if radix_val radix c = None then None else Some (read_digits radix body 0)))"

definition parseInt :: "string option \<Rightarrow> int option" where
  "parseInt arg =
     (case arg of
        None \<Rightarrow> None
      | Some s \<Rightarrow>
          (case dropWhile is_space s of
             [] \<Rightarrow> None
           | c # cs \<Rightarrow>
               if c = CHR ''-'' then map_option uminus (parse_magnitude cs)
               else if c = CHR ''+'' then parse_magnitude cs
               else parse_magnitude (c # cs)))"

subsection \<open>Printing a number\<close>

text \<open>
  \<^verbatim>\<open>x.toFixed(f)\<close> for \<open>|x| < 10^21\<close>: the integer \<open>n\<close> with \<open>n / 10^f\<close> nearest to \<open>|x|\<close>, the
  larger one of two, printed with \<open>f\<close> decimals and the sign of \<open>x\<close>.
\<close>

definition toFixed :: "nat \<Rightarrow> rat \<Rightarrow> string" where
  "toFixed f x =
     (let n = \<lfloor>\<bar>x\<bar> * 10 ^ f + 1 / 2\<rfloor>;
          m = dec n;
          m' = (if f = 0 then m
                else (let z = replicate (f + 1 - length m) CHR ''0'' @ m
                      in take (length z - f) z @ ''.'' @ drop (length z - f) z))
      in if x < 0 then CHR ''-'' # m' else m')"

subsection \<open>Objects used as dictionaries\<close>

text \<open>
  An object literal \<^verbatim>\<open>{}\<close> that the code fills by \<^verbatim>\<open>obj[key] = v\<close> is the list of its
  own properties in creation order. Reading a key that is no own property gives
  \<^verbatim>\<open>undefined\<close> (\<open>None\<close>): the members that every object inherits from
  \<^verbatim>\<open>Object.prototype\<close> (\<^verbatim>\<open>constructor\<close>, \<^verbatim>\<open>toString\<close>, \<^verbatim>\<open>__proto__\<close>, ...) are not
  modelled, so keys of these names are outside the model.
  \<^verbatim>\<open>Object.keys\<close> lists the keys that are array indices first, in numeric order, then
  the others in creation order.
\<close>

type_synonym 'v obj = "(string \<times> 'v) list"

definition obj_get :: "'v obj \<Rightarrow> string \<Rightarrow> 'v option" where
  "obj_get ob k = map_of ob k"

fun obj_set :: "'v obj \<Rightarrow> string \<Rightarrow> 'v \<Rightarrow> 'v obj" where
  "obj_set [] k v = [(k, v)]"
| "obj_set ((k', v') # rest) k v = (if k' = k then (k, v) # rest else (k', v') # obj_set rest k v)"

definition is_array_index :: "string \<Rightarrow> bool" where
  "is_array_index k =
     (k \<noteq> [] \<and> list_all is_digit k \<and> (k = ''0'' \<or> hd k \<noteq> CHR ''0'')
      \<and> read_digits 10 k 0 < 4294967295)"

definition obj_keys :: "'v obj \<Rightarrow> string list" where
  "obj_keys ob =
     sort_key (\<lambda>k. read_digits 10 k 0) (filter is_array_index (map fst ob))
     @ filter (\<lambda>k. \<not> is_array_index k) (map fst ob)"

definition obj_entries :: "'v obj \<Rightarrow> (string \<times> 'v) list" where
  "obj_entries ob = map (\<lambda>k. (k, the (obj_get ob k))) (obj_keys ob)"

subsection \<open>Dates\<close>

text \<open>
  A valid \<^verbatim>\<open>Date\<close> is an instant: a calendar day of the proleptic Gregorian calendar,
  as UTC counts it, and the milliseconds elapsed within that day. \<open>None\<close> is the invalid
  date. \<^verbatim>\<open>new Date(s)\<close> is modelled for the date-only ISO form \<^verbatim>\<open>YYYY-MM-DD\<close>, the form
  of \<open>closedDate\<close> in the persisted records, which is midnight UTC of that day; every
  other string is taken as invalid.
\<close>

type_synonym date = "int \<times> int \<times> int"

type_synonym jsdate = "date \<times> int"

definition leap_year :: "int \<Rightarrow> bool" where
  "leap_year y = (y mod 4 = 0 \<and> (y mod 100 \<noteq> 0 \<or> y mod 400 = 0))"

definition days_in_month :: "int \<Rightarrow> int \<Rightarrow> int" where
  "days_in_month y m =
     (if m = 2 then (if leap_year y then 29 else 28)
      else if m = 4 \<or> m = 6 \<or> m = 9 \<or> m = 11 then 30 else 31)"

fun valid_date :: "date \<Rightarrow> bool" where
  "valid_date (y, m, d) = (1 \<le> m \<and> m \<le> 12 \<and> 1 \<le> d \<and> d \<le> days_in_month y m)"

text \<open>The order of calendar days and of instants (\<^verbatim>\<open>d <= endDate\<close>).\<close>

fun date_le :: "date \<Rightarrow> date \<Rightarrow> bool" where
  "date_le (y, m, d) (y', m', d') = (y < y' \<or> (y = y' \<and> (m < m' \<or> (m = m' \<and> d \<le> d'))))"

definition jsdate_le :: "jsdate \<Rightarrow> jsdate \<Rightarrow> bool" where
  "jsdate_le a b = (if fst a = fst b then snd a \<le> snd b else date_le (fst a) (fst b))"

text \<open>The day after and the day before a calendar day, and a step of \<open>k\<close> days.\<close>

fun next_day :: "date \<Rightarrow> date" where
  "next_day (y, m, d) =
     (if d < days_in_month y m then (y, m, d + 1)
      else if m < 12 then (y, m + 1, 1)
      else (y + 1, 1, 1))"

fun prev_day :: "date \<Rightarrow> date" where
  "prev_day (y, m, d) =
     (if 1 < d then (y, m, d - 1)
      else if 1 < m then (y, m - 1, days_in_month y (m - 1))
      else (y - 1, 12, 31))"

definition add_days :: "int \<Rightarrow> date \<Rightarrow> date" where
  "add_days k t = (if 0 \<le> k then (next_day ^^ nat k) t else (prev_day ^^ nat (- k)) t)"

text \<open>
  The local time zone of the runtime is a parameter: \<open>utc_offset\<close> is the offset of local
  time from UTC in milliseconds at a UTC instant (\<open>LocalTZA(t, true)\<close> of the language
  specification), \<open>local_offset\<close> the offset that applies to a local date and time
  (\<open>LocalTZA(t, false)\<close>). \<open>shift\<close> moves an instant by a number of milliseconds, so
  \<open>LocalTime(t) = shift t (utc_offset t)\<close> and \<open>UTC(t) = shift t (- local_offset t)\<close>.
\<close>

record timezone =
  utc_offset :: "jsdate \<Rightarrow> int"
  local_offset :: "jsdate \<Rightarrow> int"

definition shift :: "jsdate \<Rightarrow> int \<Rightarrow> jsdate" where
  "shift t ms = (let x = snd t + ms in (add_days (x div 86400000) (fst t), x mod 86400000))"

text \<open>
  \<^verbatim>\<open>d.setDate(d.getDate() + 1)\<close>: the day of the month of the local date goes up by one
  (running over into the next month), the local time of day stays, and the result is
  converted back to UTC.
\<close>

definition setDate_next :: "timezone \<Rightarrow> jsdate \<Rightarrow> jsdate" where
  "setDate_next tz t =
     (let local = shift t (utc_offset tz t);
          newDate = (next_day (fst local), snd local)
      in shift newDate (- local_offset tz newDate))"

text \<open>A zone without daylight saving, and New York in 2024 (UTC-5, and UTC-4 from
  10 March 07:00 UTC to 3 November 06:00 UTC, that is from 03:00 to 02:00 local time).\<close>

definition fixed_zone :: "int \<Rightarrow> timezone" where
  "fixed_zone ms = \<lparr>utc_offset = (\<lambda>t. ms), local_offset = (\<lambda>t. ms)\<rparr>"

definition new_york_2024 :: timezone where
  "new_york_2024 =
     \<lparr>utc_offset = (\<lambda>t. if jsdate_le ((2024, 3, 10), 25200000) t \<and> \<not> jsdate_le ((2024, 11, 3), 21600000) t
                         then - 14400000 else - 18000000),
      local_offset = (\<lambda>t. if jsdate_le ((2024, 3, 10), 10800000) t \<and> \<not> jsdate_le ((2024, 11, 3), 7200000) t
                         then - 14400000 else - 18000000)\<rparr>"

text \<open>\<^verbatim>\<open>getTime()\<close>: milliseconds since 1970-01-01, from the count of days.\<close>

definition days_before_year :: "int \<Rightarrow> int" where
  "days_before_year y = 365 * y + (y + 3) div 4 - (y + 99) div 100 + (y + 399) div 400"

definition days_before_month :: "int \<Rightarrow> int \<Rightarrow> int" where
  "days_before_month y m = sum_list (map (days_in_month y) [1..m - 1])"

fun day_number :: "date \<Rightarrow> int" where
  "day_number (y, m, d) = days_before_year y + days_before_month y m + d - 1 - 719528"

definition getTime :: "jsdate \<Rightarrow> int" where
  "getTime t = 86400000 * day_number (fst t) + snd t"

text \<open>
  \<^verbatim>\<open>d.toISOString().split('T')[0]\<close>, the UTC day of an instant: four digits for the years
  0 to 9999, a sign and six digits beyond (years before 0 do not arise from the four-digit
  form that \<open>new_Date\<close> reads).
\<close>

definition pad2 :: "int \<Rightarrow> string" where
  "pad2 n = [digit_char (n div 10 mod 10), digit_char (n mod 10)]"

definition pad4 :: "int \<Rightarrow> string" where
  "pad4 n = [digit_char (n div 1000 mod 10), digit_char (n div 100 mod 10),
             digit_char (n div 10 mod 10), digit_char (n mod 10)]"

fun toISODate :: "date \<Rightarrow> string" where
  "toISODate (y, m, d) =
     (if y \<le> 9999 then pad4 y else CHR ''+'' # pad2 (y div 10000) @ pad4 (y mod 10000))
     @ CHR ''-'' # pad2 m @ CHR ''-'' # pad2 d"

definition parse_iso_date :: "string \<Rightarrow> date option" where
  "parse_iso_date s =
     (case s of
        [y1, y2, y3, y4, h1, m1, m2, h2, d1, d2] \<Rightarrow>
          if list_all is_digit [y1, y2, y3, y4, m1, m2, d1, d2] \<and> h1 = CHR ''-'' \<and> h2 = CHR ''-''
          then (let t = (digit_val y1 * 1000 + digit_val y2 * 100 + digit_val y3 * 10 + digit_val y4,
                         digit_val m1 * 10 + digit_val m2,
                         digit_val d1 * 10 + digit_val d2)
                in if valid_date t then Some t else None)
          else None
      | _ \<Rightarrow> None)"

definition new_Date :: "string \<Rightarrow> jsdate option" where
  "new_Date s = map_option (\<lambda>t. (t, 0)) (parse_iso_date s)"

section \<open>The CSV text written by \<^verbatim>\<open>fetchPRData\<close>\<close>

text \<open>
  \<^verbatim>\<open>r.title.replace(/"/g, '""')\<close>, the line of a record and the text
  \<^verbatim>\<open>csvLines.join("\n")\<close>. The numbers are integers and print as decimal numerals.
\<close>

definition double_quotes :: "string \<Rightarrow> string" where
  "double_quotes s = concat (map (\<lambda>c. if c = CHR 0x22 then [CHR 0x22, CHR 0x22] else [c]) s)"

definition csv_header :: string where
  "csv_header = ''Author,AuthorEmail,Project,Repository,ClosedDate,PRId,Title,LinesAdded,LinesDeleted''"

definition csv_line :: "PRRecord \<Rightarrow> string" where
  "csv_line r =
     (let escapedTitle = CHR 0x22 # double_quotes (title r) @ [CHR 0x22]
      in author r @ '','' @ authorEmail r @ '','' @ project r @ '','' @ repository r @ '',''
         @ closedDate r @ '','' @ number_to_string (prId r) @ '','' @ escapedTitle @ '',''
         @ number_to_string (linesAdded r) @ '','' @ number_to_string (linesDeleted r))"

definition generate_csv :: "PRRecord list \<Rightarrow> string" where
  "generate_csv allRecords = join [CHR 0x0A] (csv_header # map csv_line allRecords)"

section \<open>The dashboard's data processing (\<^verbatim>\<open>src/utils/dataProcessing.ts\<close>)\<close>

subsection \<open>\<^verbatim>\<open>parseCSV\<close>\<close>

text \<open>
  The loop over the characters of a line, with the state \<open>values\<close>, \<open>current\<close> and
  \<open>inQuotes\<close>; the \<^verbatim>\<open>values.push(current)\<close> after the loop is the base case.
\<close>

fun split_line :: "string \<Rightarrow> string list \<Rightarrow> string \<Rightarrow> bool \<Rightarrow> string list" where
  "split_line [] values current inQuotes = values @ [current]"
| "split_line (c # cs) values current inQuotes =
     (if c = CHR 0x22 then split_line cs values current (\<not> inQuotes)
      else if c = CHR '','' \<and> \<not> inQuotes then split_line cs (values @ [current]) [] inQuotes
      else split_line cs values (current @ [c]) inQuotes)"

text \<open>\<^verbatim>\<open>values[i]\<close>, which is \<^verbatim>\<open>undefined\<close> past the end.\<close>

definition nth_opt :: "'a list \<Rightarrow> nat \<Rightarrow> 'a option" where
  "nth_opt xs i = (if i < length xs then Some (xs ! i) else None)"

definition parse_line :: "string \<Rightarrow> PRRecord option" where
  "parse_line line =
     (let values = split_line line [] [] False
      in if length values \<ge> 5
         then Some \<lparr>author = values ! 0,
                    authorEmail = values ! 1,
                    project = values ! 2,
                    repository = values ! 3,
                    closedDate = values ! 4,
                    prId = or_zero (parseInt (nth_opt values 5)),
                    title = or_string (nth_opt values 6) [],
                    linesAdded = or_zero (parseInt (nth_opt values 7)),
                    linesDeleted = or_zero (parseInt (nth_opt values 8))\<rparr>
         else None)"

definition parseCSV :: "string \<Rightarrow> PRRecord list" where
  "parseCSV text =
     (let lines = split_on (CHR 0x0A) (trim text)
      in List.map_filter parse_line (drop 1 lines))"

subsection \<open>\<^verbatim>\<open>processData\<close>\<close>

text \<open>
  A day's bucket is one object: the property \<^verbatim>\<open>total\<close> and one property per author
  live in the same name space.
\<close>

record ProcessedData =
  byDay :: "int obj obj"
  byAuthor :: "int obj"
  byProject :: "int obj"
  days :: "string list"
  authorList :: "string list"
  totalPRs :: nat

text \<open>
  \<^verbatim>\<open>!x\<close> on an optional number, and \<^verbatim>\<open>ob[k]++\<close>; the key of an increment is an own
  property at every call.
\<close>

definition falsy :: "int option \<Rightarrow> bool" where
  "falsy x = (x = None \<or> x = Some 0)"

definition obj_incr :: "int obj \<Rightarrow> string \<Rightarrow> int obj" where
  "obj_incr ob k = obj_set ob k (or_zero (obj_get ob k) + 1)"

definition set_add :: "string list \<Rightarrow> string \<Rightarrow> string list" where
  "set_add s x = (if x \<in> set s then s else s @ [x])"

text \<open>The body of \<^verbatim>\<open>for (const r of records)\<close> on one day's bucket, then the loop.\<close>

definition count_in_bucket :: "int obj \<Rightarrow> string \<Rightarrow> int obj" where
  "count_in_bucket bucket a =
     (let b1 = (if falsy (obj_get bucket a) then obj_set bucket a 0 else bucket);
          b2 = obj_incr b1 a
      in obj_incr b2 ''total'')"

fun count_loop ::
  "PRRecord list \<Rightarrow> int obj obj \<times> int obj \<times> int obj \<times> string list
     \<Rightarrow> int obj obj \<times> int obj \<times> int obj \<times> string list" where
  "count_loop [] st = st"
| "count_loop (r # rest) (byDay0, byAuthor0, byProject0, authors) =
     (let day = closedDate r;
          authors' = set_add authors (author r);
          byDay1 = (case obj_get byDay0 day of None \<Rightarrow> obj_set byDay0 day [(''total'', 0)] | Some b \<Rightarrow> byDay0);
          bucket = (case obj_get byDay1 day of None \<Rightarrow> [] | Some b \<Rightarrow> b);
          byDay2 = obj_set byDay1 day (count_in_bucket bucket (author r));
          byAuthor1 = obj_set byAuthor0 (author r) (or_zero (obj_get byAuthor0 (author r)) + 1);
          byProject1 = obj_set byProject0 (project r) (or_zero (obj_get byProject0 (project r)) + 1)
      in count_loop rest (byDay2, byAuthor1, byProject1, authors'))"

text \<open>
  The loop \<^verbatim>\<open>for (let d = new Date(startDate); d <= endDate; d.setDate(d.getDate() + 1))\<close>,
  which gives every day without a bucket an empty one; both aggregations use it, each
  with its own empty bucket. Whether the loop ends depends on the time zone (an offset
  function may throw \<open>d\<close> back by more than a day), so it is a partial function: \<open>None\<close>
  is a loop that runs forever.
\<close>

partial_function (option) fill_missing_days ::
  "timezone \<Rightarrow> 'b \<Rightarrow> jsdate \<Rightarrow> jsdate \<Rightarrow> 'b obj \<Rightarrow> 'b obj option" where
  "fill_missing_days tz empty_bucket d endDate byDay0 =
     (if jsdate_le d endDate
      then fill_missing_days tz empty_bucket (setDate_next tz d) endDate
             (let dayStr = toISODate (fst d)
              in (case obj_get byDay0 dayStr of
                    None \<Rightarrow> obj_set byDay0 dayStr empty_bucket
                  | Some b \<Rightarrow> byDay0))
      else Some byDay0)"

declare fill_missing_days.simps [code]

definition fill_gaps :: "timezone \<Rightarrow> 'b \<Rightarrow> 'b obj \<Rightarrow> 'b obj option" where
  "fill_gaps tz empty_bucket byDay0 =
     (let days0 = sort (obj_keys byDay0)
      in if length days0 > 1
         then (case (new_Date (days0 ! 0), new_Date (days0 ! (length days0 - 1))) of
                 (Some startDate, Some endDate) \<Rightarrow>
                   fill_missing_days tz empty_bucket startDate endDate byDay0
               | _ \<Rightarrow> Some byDay0)
         else Some byDay0)"

definition processData :: "timezone \<Rightarrow> PRRecord list \<Rightarrow> ProcessedData option" where
  "processData tz records =
     (case count_loop records ([], [], [], []) of
        (byDay0, byAuthor0, byProject0, authors) \<Rightarrow>
          (case fill_gaps tz [(''total'', 0)] byDay0 of
             None \<Rightarrow> None
           | Some byDay1 \<Rightarrow>
               (let allDays = sort (obj_keys byDay1);
                    authorList0 = sort_key (\<lambda>a. - or_zero (obj_get byAuthor0 a)) authors
                in Some \<lparr>byDay = byDay1, byAuthor = byAuthor0, byProject = byProject0, days = allDays,
                         authorList = authorList0, totalPRs = length records\<rparr>)))"

text \<open>
  The rank of a calendar day, which the day after always raises: it measures how far the
  loop still is from \<open>endDate\<close>.
\<close>

fun date_rank :: "date \<Rightarrow> int" where
  "date_rank (y, m, d) = y * 500 + min m 13 * 32 + min d 32"

subsection \<open>\<^verbatim>\<open>getStats\<close>\<close>

text \<open>
  The optional \<open>author\<close> argument is \<^verbatim>\<open>string | null\<close>; the empty string is as falsy
  as \<^verbatim>\<open>null\<close>. \<open>weeks\<close> is \<open>None\<close> when a date does not parse (\<^verbatim>\<open>NaN\<close>), and the
  average then prints as \<^verbatim>\<open>NaN\<close>.
\<close>

record Stats =
  total' :: nat
  avgPerWeek :: string
  topContributor :: string
  weeks :: "int option"

definition truthy_string :: "string option \<Rightarrow> bool" where
  "truthy_string a = (case a of None \<Rightarrow> False | Some s \<Rightarrow> s \<noteq> [])"

definition filter_author :: "PRRecord list \<Rightarrow> string option \<Rightarrow> PRRecord list" where
  "filter_author records a =
     (if truthy_string a then filter (\<lambda>r. Some (author r) = a) records else records)"

definition weekSpan_of :: "PRRecord list \<Rightarrow> int option" where
  "weekSpan_of filtered =
     (let dates = sort (map closedDate filtered)
      in (case (new_Date (dates ! 0), new_Date (dates ! (length dates - 1))) of
            (Some firstDate, Some lastDate) \<Rightarrow>
              Some (max 1 \<lceil>js_div (of_int (getTime lastDate - getTime firstDate)) (7 * 24 * 60 * 60 * 1000)\<rceil>)
          | _ \<Rightarrow> None))"

definition top_entry :: "int obj \<Rightarrow> string" where
  "top_entry counts =
     (case sort_key (\<lambda>e. - snd e) (obj_entries counts) of
        [] \<Rightarrow> ''N/A''
      | e # es \<Rightarrow> fst e)"

definition getStats :: "PRRecord list \<Rightarrow> string option \<Rightarrow> Stats" where
  "getStats records a =
     (let filtered = filter_author records a;
          n = length filtered
      in if n = 0 then \<lparr>total' = 0, avgPerWeek = ''0'', topContributor = ''N/A'', weeks = Some 0\<rparr>
         else (let weekSpan = weekSpan_of filtered;
                   avg = (case weekSpan of
                            None \<Rightarrow> ''NaN''
                          | Some w \<Rightarrow> toFixed 1 (js_div (of_nat n) (of_int w)));
                   top = (if truthy_string a then or_string a ''N/A''
                          else top_entry (foldl (\<lambda>counts r. obj_set counts (author r)
                                                   (or_zero (obj_get counts (author r)) + 1)) [] filtered))
               in \<lparr>total' = n, avgPerWeek = avg, topContributor = top, weeks = weekSpan\<rparr>))"

subsection \<open>\<^verbatim>\<open>processImpactData\<close>\<close>

text \<open>
  A property of a day's bucket is a number (\<^verbatim>\<open>totalAdded\<close>, \<^verbatim>\<open>totalDeleted\<close>) or an
  object \<^verbatim>\<open>{added, deleted}\<close> (an author); adding a number to an object gives a string.
  Assigning to a property of a number or a string throws a \<^verbatim>\<open>TypeError\<close> (module code
  is strict).
\<close>

datatype impact_val = Num int | Pair int int | Str string

datatype js_error = TypeError

definition falsy_val :: "impact_val option \<Rightarrow> bool" where
  "falsy_val x = (x = None \<or> x = Some (Num 0) \<or> x = Some (Str []))"

definition add_number :: "impact_val option \<Rightarrow> int \<Rightarrow> impact_val" where
  "add_number x n =
     (case x of
        Some (Num k) \<Rightarrow> Num (k + n)
      | Some (Pair a b) \<Rightarrow> Str (''[object Object]'' @ number_to_string n)
      | Some (Str s) \<Rightarrow> Str (s @ number_to_string n)
      | None \<Rightarrow> Num n)"

definition add_to_pair :: "impact_val option \<Rightarrow> int \<Rightarrow> int \<Rightarrow> js_error + impact_val" where
  "add_to_pair x la ld =
     (case x of
        Some (Pair a b) \<Rightarrow> Inr (Pair (a + la) (b + ld))
      | _ \<Rightarrow> Inl TypeError)"

definition impact_in_bucket :: "impact_val obj \<Rightarrow> string \<Rightarrow> int \<Rightarrow> int \<Rightarrow> js_error + impact_val obj" where
  "impact_in_bucket bucket a la ld =
     (let b1 = (if falsy_val (obj_get bucket a) then obj_set bucket a (Pair 0 0) else bucket)
      in (case add_to_pair (obj_get b1 a) la ld of
            Inl e \<Rightarrow> Inl e
          | Inr p \<Rightarrow>
              (let b2 = obj_set b1 a p;
                   b3 = obj_set b2 ''totalAdded'' (add_number (obj_get b2 ''totalAdded'') la);
                   b4 = obj_set b3 ''totalDeleted'' (add_number (obj_get b3 ''totalDeleted'') ld)
               in Inr b4)))"

definition add_lines :: "(int \<times> int) obj \<Rightarrow> string \<Rightarrow> int \<Rightarrow> int \<Rightarrow> (int \<times> int) obj" where
  "add_lines ob k la ld =
     (case obj_get ob k of
        None \<Rightarrow> obj_set ob k (la, ld)
      | Some (a, b) \<Rightarrow> obj_set ob k (a + la, b + ld))"

definition empty_impact_bucket :: "impact_val obj" where
  "empty_impact_bucket = [(''totalAdded'', Num 0), (''totalDeleted'', Num 0)]"

fun impact_loop ::
  "PRRecord list \<Rightarrow> impact_val obj obj \<times> (int \<times> int) obj \<times> (int \<times> int) obj \<times> string list
     \<Rightarrow> js_error + impact_val obj obj \<times> (int \<times> int) obj \<times> (int \<times> int) obj \<times> string list" where
  "impact_loop [] st = Inr st"
| "impact_loop (r # rest) (byDay0, byAuthor0, byProject0, authors) =
     (let day = closedDate r;
          authors' = set_add authors (author r);
          byDay1 = (case obj_get byDay0 day of None \<Rightarrow> obj_set byDay0 day empty_impact_bucket | Some b \<Rightarrow> byDay0);
          bucket = (case obj_get byDay1 day of None \<Rightarrow> [] | Some b \<Rightarrow> b)
      in (case impact_in_bucket bucket (author r) (linesAdded r) (linesDeleted r) of
            Inl e \<Rightarrow> Inl e
          | Inr bucket' \<Rightarrow>
              impact_loop rest
                (obj_set byDay1 day bucket',
                 add_lines byAuthor0 (author r) (linesAdded r) (linesDeleted r),
                 add_lines byProject0 (project r) (linesAdded r) (linesDeleted r),
                 authors')))"

record ImpactData =
  i_byDay :: "impact_val obj obj"
  i_byAuthor :: "(int \<times> int) obj"
  i_byProject :: "(int \<times> int) obj"
  i_days :: "string list"
  i_authorList :: "string list"
  totalLinesAdded :: int
  totalLinesDeleted :: int

text \<open>The result is \<open>None\<close> when the gap-filling loop runs forever, \<open>Inl\<close> an exception.\<close>

definition processImpactData :: "timezone \<Rightarrow> PRRecord list \<Rightarrow> (js_error + ImpactData) option" where
  "processImpactData tz records =
     (case impact_loop records ([], [], [], []) of
        Inl e \<Rightarrow> Some (Inl e)
      | Inr (byDay0, byAuthor0, byProject0, authors) \<Rightarrow>
          (case fill_gaps tz empty_impact_bucket byDay0 of
             None \<Rightarrow> None
           | Some byDay1 \<Rightarrow>
               (let allDays = sort (obj_keys byDay1);
                    lines = (\<lambda>a. case obj_get byAuthor0 a of None \<Rightarrow> 0 | Some (x, y) \<Rightarrow> x + y);
                    authorList0 = sort_key (\<lambda>a. - lines a) authors
                in Some (Inr \<lparr>i_byDay = byDay1, i_byAuthor = byAuthor0, i_byProject = byProject0,
                              i_days = allDays, i_authorList = authorList0,
                              totalLinesAdded = foldl (\<lambda>s e. s + fst (snd e)) 0 (obj_entries byAuthor0),
                              totalLinesDeleted = foldl (\<lambda>s e. s + snd (snd e)) 0 (obj_entries byAuthor0)\<rparr>))))"

subsection \<open>\<^verbatim>\<open>getImpactStats\<close>\<close>

record ImpactStats =
  totalAdded :: int
  totalDeleted :: int
  netChange :: int
  i_avgPerWeek :: string
  i_topContributor :: string
  i_weeks :: "int option"

definition getImpactStats :: "PRRecord list \<Rightarrow> string option \<Rightarrow> ImpactStats" where
  "getImpactStats records a =
     (let filtered = filter_author records a
      in if length filtered = 0
         then \<lparr>totalAdded = 0, totalDeleted = 0, netChange = 0, i_avgPerWeek = ''0'',
               i_topContributor = ''N/A'', i_weeks = Some 0\<rparr>
         else (let added_sum = foldl (\<lambda>s r. s + linesAdded r) 0 filtered;
                   deleted_sum = foldl (\<lambda>s r. s + linesDeleted r) 0 filtered;
                   net = added_sum - deleted_sum;
                   weekSpan = weekSpan_of filtered;
                   avg = (case weekSpan of
                            None \<Rightarrow> ''NaN''
                          | Some w \<Rightarrow> toFixed 0 (js_div (of_int net) (of_int w)));
                   top = (if truthy_string a then or_string a ''N/A''
                          else top_entry (foldl (\<lambda>counts r. obj_set counts (author r)
                                                   (or_zero (obj_get counts (author r)) + linesAdded r + linesDeleted r))
                                            [] filtered))
               in \<lparr>totalAdded = added_sum, totalDeleted = deleted_sum, netChange = net,
                   i_avgPerWeek = avg, i_topContributor = top, i_weeks = weekSpan\<rparr>))"

subsection \<open>\<^verbatim>\<open>removeOutliers\<close>\<close>

text \<open>
  \<open>percentile\<close> is a number, and so are the total of a record (whose line counts are whole
  numbers), the index and the threshold. \<^verbatim>\<open>sorted[i]\<close> is \<^verbatim>\<open>undefined\<close> unless \<open>i\<close> is a
  whole number inside the array, and reading \<^verbatim>\<open>.totalLines\<close> of \<^verbatim>\<open>undefined\<close> throws a
  \<^verbatim>\<open>TypeError\<close>.
\<close>

definition percentileIndex :: "nat \<Rightarrow> jsnumber \<Rightarrow> jsnumber" where
  "percentileIndex n percentile =
     num_floor (num_mul (Finite (of_nat n)) (num_div percentile (Finite 100)))"

definition totalLines :: "PRRecord \<Rightarrow> jsnumber" where
  "totalLines r = num_add (Finite (of_int (linesAdded r))) (Finite (of_int (linesDeleted r)))"

definition removeOutliers :: "PRRecord list \<Rightarrow> jsnumber \<Rightarrow> js_error + PRRecord list" where
  "removeOutliers records percentile =
     (if length records = 0 then Inr records
      else (let recordsWithTotal = map (\<lambda>r. (r, totalLines r)) records;
                sorted_records = array_sort (\<lambda>a b. num_sub (snd a) (snd b)) recordsWithTotal;
                i = num_min (percentileIndex (length sorted_records) percentile)
                      (Finite (of_int (int (length sorted_records) - 1)))
            in (case array_get (map Some sorted_records) i of
                  None \<Rightarrow> Inl TypeError
                | Some entry \<Rightarrow>
                    (let threshold = snd entry
                     in Inr (map fst (filter (\<lambda>rt. num_le (snd rt) threshold) recordsWithTotal))))))"

text \<open>
  What the specification says of the same function: the total of a record, the index
  \<open>min(\<lfloor>n \<cdot> p / 100\<rfloor>, n - 1)\<close>, the threshold at that index of the ascending totals, and the
  records at or below it.
\<close>

definition spec_totalLines :: "PRRecord \<Rightarrow> int" where
  "spec_totalLines r = linesAdded r + linesDeleted r"

definition spec_index :: "nat \<Rightarrow> rat \<Rightarrow> int" where
  "spec_index n p = min \<lfloor>of_nat n * p / 100\<rfloor> (int n - 1)"

definition spec_removeOutliers :: "PRRecord list \<Rightarrow> rat \<Rightarrow> PRRecord list" where
  "spec_removeOutliers records p =
     filter (\<lambda>r. spec_totalLines r
               \<le> sort (map spec_totalLines records) ! nat (spec_index (length records) p))
       records"

text \<open>
  A string that \<^verbatim>\<open>new Date\<close> reads as a calendar date, in the form \<^verbatim>\<open>YYYY-MM-DD\<close> of the
  persisted records.
\<close>

definition iso_date :: "string \<Rightarrow> bool" where
  "iso_date s = (parse_iso_date s \<noteq> None)"

text \<open>
  The invariant of the impact buckets: apart from the two totals, every property of a
  bucket is an object \<^verbatim>\<open>{added, deleted}\<close>.
\<close>

definition authors_are_pairs :: "impact_val obj \<Rightarrow> bool" where
  "authors_are_pairs bucket =
     (\<forall>k v. obj_get bucket k = Some v \<and> k \<noteq> ''totalAdded'' \<and> k \<noteq> ''totalDeleted''
        \<longrightarrow> (\<exists>a b. v = Pair a b))"

definition buckets_ok :: "impact_val obj obj \<Rightarrow> bool" where
  "buckets_ok bd = (\<forall>k b. obj_get bd k = Some b \<longrightarrow> authors_are_pairs b)"

section \<open>Verification\<close>

subsection \<open>Powers of two and the binary exponent\<close>

lemma two_power_eq: "two_power k = 2 ^ nat k"
proof (induction k rule: two_power.induct)
  case (1 k)
  show ?case
  proof (cases "k \<le> 0")
    case True
    then show ?thesis by (subst two_power.simps) simp
  next
    case False
    then have IH: "two_power (k div 2) = 2 ^ nat (k div 2)"
      using 1 by simp
    have k: "k = 2 * (k div 2) + k mod 2" by simp
    show ?thesis
    proof (cases "even k")
      case True
      then have "nat k = nat (k div 2) + nat (k div 2)"
        using False by (auto elim!: evenE)
      then have "(2::rat) ^ nat k = 2 ^ nat (k div 2) * 2 ^ nat (k div 2)"
        by (simp only: power_add)
      then show ?thesis
        using False True IH by (subst two_power.simps) (simp add: Let_def)
    next
      case odd: False
      then have "nat k = Suc (nat (k div 2) + nat (k div 2))"
        using False by (auto elim!: oddE)
      then have "(2::rat) ^ nat k = 2 * (2 ^ nat (k div 2) * 2 ^ nat (k div 2))"
        by (simp only: power_add power_Suc)
      then show ?thesis
        using False odd IH by (subst two_power.simps) (simp add: Let_def)
    qed
  qed
qed

lemma pow2_powi: "pow2 k = 2 powi k"
  by (simp add: pow2_def two_power_eq power_int_def field_simps)

lemma pow2_pos: "0 < pow2 k"
  by (simp add: pow2_powi)

lemma pow2_add: "pow2 (a + b) = pow2 a * pow2 b"
  by (simp add: pow2_powi power_int_add)

lemma pow2_0: "pow2 0 = 1"
  by (simp add: pow2_powi)

lemma pow2_1: "pow2 1 = 2"
  by (simp add: pow2_powi)

lemma pow2_nat: "0 \<le> k \<Longrightarrow> pow2 k = 2 ^ nat k"
  by (simp add: pow2_def two_power_eq)

lemma pow2_mono: "a \<le> b \<Longrightarrow> pow2 a \<le> pow2 b"
  by (simp add: pow2_powi power_int_increasing)

lemma pow2_strict_mono: "a < b \<Longrightarrow> pow2 a < pow2 b"
  by (simp add: pow2_powi power_int_strict_increasing)

lemma pow2_le_iff: "pow2 a \<le> pow2 b \<longleftrightarrow> a \<le> b"
  using pow2_mono [of a b] pow2_strict_mono [of b a] by (auto simp: not_le [symmetric])

lemma pow2_less_iff: "pow2 a < pow2 b \<longleftrightarrow> a < b"
  using pow2_strict_mono [of a b] pow2_mono [of b a] by (auto simp: not_less [symmetric])

lemma pow2_Suc: "pow2 (k + 1) = 2 * pow2 k"
  by (simp add: pow2_add pow2_1)

lemma pow2_minus: "pow2 (- k) = 1 / pow2 k"
  by (simp add: pow2_powi power_int_minus field_simps)

lemma pow2_diff: "pow2 (a - b) = pow2 a / pow2 b"
  using pow2_add [of a "- b"] by (simp add: pow2_minus)

lemma bit_length_pos: "0 < n \<Longrightarrow> 1 \<le> bit_length n"
proof (induction n rule: bit_length.induct)
  case (1 n)
  have "0 \<le> bit_length (n div 2)"
  proof (cases "0 < n div 2")
    case True
    then show ?thesis using 1 by simp
  next
    case False
    then show ?thesis by (subst bit_length.simps) simp
  qed
  then show ?case using 1(2) by (subst bit_length.simps) simp
qed

lemma pow2_int: "0 \<le> k \<Longrightarrow> pow2 k = of_int (2 ^ nat k)"
  by (simp add: pow2_nat)

lemma bit_length_bounds:
  "0 < n \<Longrightarrow> pow2 (bit_length n - 1) \<le> of_int n \<and> of_int n < pow2 (bit_length n)"
proof (induction n rule: bit_length.induct)
  case (1 n)
  have bl: "bit_length n = 1 + bit_length (n div 2)"
    using 1(2) by (subst bit_length.simps) simp
  show ?case
  proof (cases "n = 1")
    case True
    have "bit_length (1 div 2) = 0" by (subst bit_length.simps) simp
    then have "bit_length 1 = 1" by (subst bit_length.simps) simp
    then show ?thesis using True by (simp add: pow2_0 pow2_1)
  next
    case False
    define m where "m = n div 2"
    have pos: "0 < m" using 1(2) False by (simp add: m_def)
    have IH: "pow2 (bit_length m - 1) \<le> of_int m \<and> of_int m < pow2 (bit_length m)"
      using 1(1) [OF _ pos [unfolded m_def]] 1(2) by (simp add: m_def)
    have ge1: "1 \<le> bit_length m" using pos by (rule bit_length_pos)
    have n2: "2 * m \<le> n" "n \<le> 2 * m + 1"
      by (simp_all add: m_def)
    have blm: "bit_length n - 1 = bit_length m" "bit_length n = bit_length m + 1"
      using bl by (simp_all add: m_def)
    have "pow2 (bit_length m) = 2 * pow2 (bit_length m - 1)"
      using pow2_Suc [of "bit_length m - 1"] by simp
    also have "\<dots> \<le> 2 * of_int m" using IH by simp
    also have "\<dots> \<le> of_int n" using n2(1) by (simp flip: of_int_le_iff [where 'a = rat])
    finally have lo: "pow2 (bit_length n - 1) \<le> of_int n"
      by (simp only: blm(1))
    have "(of_int m :: rat) < of_int (2 ^ nat (bit_length m))"
      using IH ge1 by (simp only: pow2_int [symmetric])
    then have "m < 2 ^ nat (bit_length m)"
      by (simp only: of_int_less_iff)
    then have "m + 1 \<le> 2 ^ nat (bit_length m)" by simp
    then have "(of_int (m + 1) :: rat) \<le> of_int (2 ^ nat (bit_length m))"
      by (simp only: of_int_le_iff)
    then have m1: "of_int m + 1 \<le> pow2 (bit_length m)"
      using ge1 by (simp add: pow2_int)
    have "(of_int n :: rat) \<le> 2 * of_int m + 1"
      using n2(2) by (simp flip: of_int_le_iff [where 'a = rat])
    also have "\<dots> < 2 * (of_int m + 1)" by simp
    also have "\<dots> \<le> 2 * pow2 (bit_length m)" using m1 by simp
    also have "\<dots> = pow2 (bit_length m + 1)" by (simp add: pow2_Suc)
    finally have hi: "of_int n < pow2 (bit_length n)"
      by (simp only: blm(2))
    show ?thesis using lo hi by simp
  qed
qed

lemma binary_exponent_bounds:
  assumes "0 < x"
  shows "pow2 (binary_exponent x) \<le> x \<and> x < pow2 (binary_exponent x + 1)"
proof -
  obtain n d where q: "quotient_of x = (n, d)" by (cases "quotient_of x") auto
  have d: "0 < d" using q by (rule quotient_of_denom_pos)
  have x: "x = of_int n / of_int d" using q by (rule quotient_of_div)
  have n: "0 < n"
    using assms d unfolding x by (simp add: zero_less_divide_iff)
  define k where "k = bit_length n - bit_length d"
  note bn = bit_length_bounds [OF n] and bd = bit_length_bounds [OF d]
  have dpos: "(0::rat) < of_int d" using d by simp
  have "x * of_int d = of_int n" using dpos unfolding x by simp
  have up: "x < pow2 (k + 1)"
  proof -
    have "of_int n < pow2 (bit_length n)" using bn by simp
    also have "\<dots> = pow2 (k + 1) * pow2 (bit_length d - 1)"
      by (simp add: k_def flip: pow2_add)
    also have "\<dots> \<le> pow2 (k + 1) * of_int d"
      using bd pow2_pos [of "k + 1"] by simp
    finally have "of_int n / of_int d < pow2 (k + 1)"
      using dpos by (simp add: pos_divide_less_eq)
    then show ?thesis unfolding x .
  qed
  have lo: "pow2 (k - 1) < x"
  proof -
    have "pow2 (k - 1) * of_int d < pow2 (k - 1) * pow2 (bit_length d)"
      using bd pow2_pos [of "k - 1"] by simp
    also have "\<dots> = pow2 (bit_length n - 1)"
      by (simp add: k_def flip: pow2_add)
    also have "\<dots> \<le> of_int n" using bn by simp
    finally have "pow2 (k - 1) < of_int n / of_int d"
      using dpos by (simp add: pos_less_divide_eq)
    then show ?thesis unfolding x .
  qed
  have be: "binary_exponent x = (if pow2 k \<le> x then k else k - 1)"
    by (simp add: binary_exponent_def q k_def Let_def)
  show ?thesis
  proof (cases "pow2 k \<le> x")
    case True
    then show ?thesis using up be by simp
  next
    case False
    then show ?thesis using lo be by simp
  qed
qed

lemma binary_exponent_unique:
  assumes "0 < x" and "pow2 e \<le> x" and "x < pow2 (e + 1)"
  shows "binary_exponent x = e"
proof -
  note b = binary_exponent_bounds [OF assms(1)]
  have "pow2 (binary_exponent x) < pow2 (e + 1)"
    using b assms(3) by simp
  then have "binary_exponent x < e + 1" by (simp only: pow2_less_iff)
  moreover have "pow2 e < pow2 (binary_exponent x + 1)"
    using b assms(2) by simp
  then have "e < binary_exponent x + 1" by (simp only: pow2_less_iff)
  ultimately show ?thesis by simp
qed

lemma round_half_even_int: "round_half_even (of_int n) = n"
  by (simp add: round_half_even_def)

lemma round_half_even_nonneg: "0 \<le> q \<Longrightarrow> 0 \<le> round_half_even q"
proof -
  assume "0 \<le> q"
  then have "0 \<le> \<lfloor>q\<rfloor>" by simp
  then show ?thesis by (simp add: round_half_even_def Let_def)
qed

lemma round_half_even_upper: "round_half_even q \<le> \<lfloor>q\<rfloor> + 1"
  by (simp add: round_half_even_def Let_def)

lemma round_half_even_lower: "\<lfloor>q\<rfloor> \<le> round_half_even q"
  by (simp add: round_half_even_def Let_def)

subsection \<open>Numbers that rounding leaves alone\<close>

lemma to_double_0: "to_double 0 = 0"
  by (simp add: to_double_def)

lemma to_double_unfold:
  assumes "x \<noteq> 0"
  shows "to_double x =
    sgn x * of_int (round_half_even (\<bar>x\<bar> * pow2 (52 - max (binary_exponent \<bar>x\<bar>) (- 1022))))
      * pow2 (max (binary_exponent \<bar>x\<bar>) (- 1022) - 52)"
  using assms by (simp add: to_double_def Let_def)

lemma to_double_exact_strict:
  assumes x: "x = of_int m * pow2 q" and m: "\<bar>m\<bar> < 2 ^ 53" and q: "- 1074 \<le> q"
  shows "to_double x = x"
proof (cases "x = 0")
  case True
  then show ?thesis by (simp add: to_double_0)
next
  case False
  define e where "e = max (binary_exponent \<bar>x\<bar>) (- 1022)"
  have ax: "\<bar>x\<bar> = of_int \<bar>m\<bar> * pow2 q"
    using pow2_pos [of q] unfolding x by (simp add: abs_mult)
  have pos: "0 < \<bar>x\<bar>" using False by simp
  have k: "0 \<le> q + 52 - e"
  proof (cases "binary_exponent \<bar>x\<bar> \<le> - 1022")
    case True
    then show ?thesis using q by (simp add: e_def)
  next
    case False
    then have ee: "e = binary_exponent \<bar>x\<bar>" by (simp add: e_def)
    have "pow2 e \<le> \<bar>x\<bar>"
      using binary_exponent_bounds [OF pos] by (simp add: ee)
    also have "\<dots> = of_int \<bar>m\<bar> * pow2 q" by (rule ax)
    also have "\<dots> < of_int (2 ^ 53) * pow2 q"
      using m pow2_pos [of q] by (simp only: mult_less_cancel_right_pos of_int_less_iff)
    also have "\<dots> = pow2 53 * pow2 q"
      by (simp add: pow2_nat)
    also have "\<dots> = pow2 (53 + q)" by (simp add: pow2_add)
    finally have "e < 53 + q" by (simp only: pow2_less_iff)
    then show ?thesis by simp
  qed
  have "\<bar>x\<bar> * pow2 (52 - e) = of_int \<bar>m\<bar> * pow2 (q + 52 - e)"
    unfolding ax using pow2_add [of q "52 - e"] by (simp add: algebra_simps)
  also have "\<dots> = of_int (\<bar>m\<bar> * 2 ^ nat (q + 52 - e))"
    using k by (simp add: pow2_nat)
  finally have scaled: "\<bar>x\<bar> * pow2 (52 - e) = of_int (\<bar>m\<bar> * 2 ^ nat (q + 52 - e))" .
  have r: "of_int (round_half_even (\<bar>x\<bar> * pow2 (52 - e))) = \<bar>x\<bar> * pow2 (52 - e)"
    unfolding scaled by (simp only: round_half_even_int)
  have "pow2 (52 - e) * pow2 (e - 52) = 1"
    using pow2_add [of "52 - e" "e - 52"] by (simp add: pow2_0)
  then have "sgn x * (\<bar>x\<bar> * pow2 (52 - e)) * pow2 (e - 52) = sgn x * \<bar>x\<bar>"
    by (simp add: mult.assoc)
  then have "sgn x * of_int (round_half_even (\<bar>x\<bar> * pow2 (52 - e))) * pow2 (e - 52) = x"
    unfolding r by (simp add: sgn_mult_abs)
  then show ?thesis
    using to_double_unfold [OF False] by (simp only: e_def)
qed

lemma to_double_exact:
  assumes x: "x = of_int m * pow2 q" and m: "\<bar>m\<bar> \<le> 2 ^ 53" and q: "- 1074 \<le> q"
  shows "to_double x = x"
proof (cases "\<bar>m\<bar> = 2 ^ 53")
  case False
  then show ?thesis using assms by (intro to_double_exact_strict [of x m q]) simp_all
next
  case True
  then have "m = 2 ^ 53 \<or> m = - (2 ^ 53)" by linarith
  then have "of_int m = of_int (sgn m) * pow2 53"
    by (auto simp: pow2_nat)
  then have "x = of_int (sgn m) * pow2 (53 + q)"
    unfolding x by (simp add: pow2_add)
  moreover have "\<bar>sgn m\<bar> < 2 ^ 53"
    by (simp add: sgn_if)
  ultimately show ?thesis using q by (intro to_double_exact_strict [of x "sgn m" "53 + q"]) simp_all
qed

lemma to_double_int: "\<bar>n\<bar> \<le> 2 ^ 53 \<Longrightarrow> to_double (of_int n) = of_int n"
  using to_double_exact [of "of_int n" n 0] by (simp add: pow2_0)

lemma round_half_even_bound:
  assumes "0 \<le> y" and "y < pow2 53"
  shows "0 \<le> round_half_even y \<and> round_half_even y \<le> 2 ^ 53"
proof -
  have "y < of_int (2 ^ 53)" using assms(2) by (simp add: pow2_nat)
  then have "\<lfloor>y\<rfloor> < 2 ^ 53" by (simp only: floor_less_iff)
  then show ?thesis
    using round_half_even_upper [of y] round_half_even_nonneg [OF assms(1)] by linarith
qed

lemma scaled_bound:
  assumes "x \<noteq> 0"
  shows "0 \<le> \<bar>x\<bar> * pow2 (52 - max (binary_exponent \<bar>x\<bar>) (- 1022))
       \<and> \<bar>x\<bar> * pow2 (52 - max (binary_exponent \<bar>x\<bar>) (- 1022)) < pow2 53"
proof -
  define e where "e = max (binary_exponent \<bar>x\<bar>) (- 1022)"
  have pos: "0 < \<bar>x\<bar>" using assms by simp
  have "\<bar>x\<bar> < pow2 (binary_exponent \<bar>x\<bar> + 1)"
    using binary_exponent_bounds [OF pos] by simp
  also have "\<dots> \<le> pow2 (e + 1)"
    by (simp add: pow2_le_iff e_def)
  finally have "\<bar>x\<bar> * pow2 (52 - e) < pow2 (e + 1) * pow2 (52 - e)"
    using pow2_pos [of "52 - e"] by (simp only: mult_less_cancel_right_pos)
  also have "\<dots> = pow2 53"
    by (simp flip: pow2_add)
  finally show ?thesis
    using pow2_pos [of "52 - e"] by (simp add: e_def)
qed

lemma to_double_decompose:
  assumes "to_double x = x"
  shows "\<exists>m q. x = of_int m * pow2 q \<and> \<bar>m\<bar> \<le> 2 ^ 53 \<and> - 1074 \<le> q"
proof (cases "x = 0")
  case True
  then show ?thesis by (intro exI [of _ 0] exI [of _ 0]) simp
next
  case False
  define e where "e = max (binary_exponent \<bar>x\<bar>) (- 1022)"
  define N where "N = round_half_even (\<bar>x\<bar> * pow2 (52 - e))"
  have N: "0 \<le> N \<and> N \<le> 2 ^ 53"
    using scaled_bound [OF False] round_half_even_bound unfolding N_def e_def by blast
  have "x = sgn x * of_int N * pow2 (e - 52)"
    using to_double_unfold [OF False] assms by (simp add: N_def e_def)
  moreover have "sgn x = of_int (if 0 < x then 1 else - 1)"
    using False by (simp add: sgn_if)
  ultimately have "x = of_int ((if 0 < x then 1 else - 1) * N) * pow2 (e - 52)"
    by simp
  moreover have "\<bar>(if 0 < x then 1 else - 1) * N\<bar> \<le> 2 ^ 53"
    using N by (simp add: abs_mult)
  moreover have "- 1074 \<le> e - 52" by (simp add: e_def)
  ultimately show ?thesis by blast
qed

lemma to_double_half:
  assumes "to_double w = w" and "1 < w"
  shows "to_double (w / 2) = w / 2"
proof -
  obtain m q where w: "w = of_int m * pow2 q" and m: "\<bar>m\<bar> \<le> 2 ^ 53" and q: "- 1074 \<le> q"
    using to_double_decompose [OF assms(1)] by blast
  have "1 < \<bar>of_int m * pow2 q\<bar>" using assms(2) w by simp
  also have "\<bar>of_int m * pow2 q\<bar> = of_int \<bar>m\<bar> * pow2 q"
    using pow2_pos [of q] by (simp add: abs_mult)
  also have "\<dots> \<le> of_int (2 ^ 53) * pow2 q"
    using m pow2_pos [of q] by (simp only: mult_le_cancel_right_pos of_int_le_iff)
  also have "\<dots> = pow2 (53 + q)" by (simp add: pow2_add pow2_nat)
  finally have "pow2 0 < pow2 (53 + q)" by (simp add: pow2_0)
  then have "0 < 53 + q" by (simp only: pow2_less_iff)
  then have q': "- 1074 \<le> q - 1" by simp
  have "w / 2 = of_int m * pow2 (q - 1)"
    using pow2_Suc [of "q - 1"] unfolding w by simp
  then show ?thesis using m q' by (rule to_double_exact)
qed

lemma to_double_abs_bound:
  assumes "x \<noteq> 0"
  shows "\<bar>to_double x\<bar> \<le> pow2 (max (binary_exponent \<bar>x\<bar>) (- 1022) + 1)"
proof -
  define e where "e = max (binary_exponent \<bar>x\<bar>) (- 1022)"
  define N where "N = round_half_even (\<bar>x\<bar> * pow2 (52 - e))"
  have N: "0 \<le> N \<and> N \<le> 2 ^ 53"
    using scaled_bound [OF assms] round_half_even_bound unfolding N_def e_def by blast
  have "to_double x = sgn x * of_int N * pow2 (e - 52)"
    using to_double_unfold [OF assms] by (simp add: N_def e_def)
  then have "\<bar>to_double x\<bar> = of_int N * pow2 (e - 52)"
    using N assms pow2_pos [of "e - 52"] by (simp add: abs_mult)
  also have "\<dots> \<le> of_int (2 ^ 53) * pow2 (e - 52)"
    using N pow2_pos [of "e - 52"] by (simp only: mult_le_cancel_right_pos of_int_le_iff)
  also have "\<dots> = pow2 (e + 1)"
    using pow2_add [of 53 "e - 52"] by (simp add: pow2_nat add.commute)
  finally show ?thesis by (simp only: e_def)
qed

lemma to_double_nonneg: "0 \<le> x \<Longrightarrow> 0 \<le> to_double x"
  using pow2_pos [of "52 - max (binary_exponent \<bar>x\<bar>) (- 1022)"]
        pow2_pos [of "max (binary_exponent \<bar>x\<bar>) (- 1022) - 52"]
  by (auto simp: to_double_def Let_def intro!: mult_nonneg_nonneg round_half_even_nonneg)

lemma binary_exponent_less:
  assumes "0 < y" and "y < pow2 k"
  shows "binary_exponent y < k"
proof -
  have "pow2 (binary_exponent y) < pow2 k"
    using binary_exponent_bounds [OF assms(1)] assms(2) by simp
  then show ?thesis by (simp only: pow2_less_iff)
qed

lemma round_double_finite:
  assumes "\<bar>x\<bar> < pow2 1023"
  shows "round_double x = Finite (to_double x)"
proof (cases "to_double x = 0")
  case True
  then show ?thesis by (simp add: round_double_def)
next
  case False
  then have x0: "x \<noteq> 0" by (auto simp: to_double_0)
  then have "binary_exponent \<bar>x\<bar> < 1023"
    using assms by (intro binary_exponent_less) simp_all
  then have "max (binary_exponent \<bar>x\<bar>) (- 1022) + 1 \<le> 1023" by simp
  then have "pow2 (max (binary_exponent \<bar>x\<bar>) (- 1022) + 1) \<le> pow2 1023"
    by (simp only: pow2_le_iff)
  then have "\<bar>to_double x\<bar> \<le> pow2 1023"
    using to_double_abs_bound [OF x0] by simp
  also have "\<dots> < pow2 1024" by (simp add: pow2_less_iff)
  finally have "binary_exponent \<bar>to_double x\<bar> < 1024"
    using False by (intro binary_exponent_less) simp_all
  then show ?thesis by (simp add: round_double_def Let_def)
qed

lemma round_double_int:
  "\<bar>n\<bar> \<le> 2 ^ 53 \<Longrightarrow> round_double (of_int n) = Finite (of_int n)"
proof -
  assume n: "\<bar>n\<bar> \<le> 2 ^ 53"
  have "\<bar>of_int n :: rat\<bar> = of_int \<bar>n\<bar>" by simp
  also have "\<dots> \<le> of_int (2 ^ 53)" using n by (simp only: of_int_le_iff)
  also have "\<dots> = pow2 53" by (simp add: pow2_nat)
  also have "\<dots> < pow2 1023" by (simp add: pow2_less_iff)
  finally show ?thesis
    using round_double_finite [of "of_int n"] to_double_int [OF n] by simp
qed

lemma round_double_nonneg:
  "0 \<le> x \<Longrightarrow> round_double x = PosInf \<or> (\<exists>r. round_double x = Finite r \<and> 0 \<le> r)"
  using to_double_nonneg [of x] by (auto simp: round_double_def Let_def)

lemma num_add_int:
  "\<bar>a + b\<bar> \<le> 2 ^ 53 \<Longrightarrow> num_add (Finite (of_int a)) (Finite (of_int b)) = Finite (of_int (a + b))"
  using round_double_int [of "a + b"] by simp

lemma num_sub_int:
  "\<bar>a - b\<bar> \<le> 2 ^ 53 \<Longrightarrow> num_sub (Finite (of_int a)) (Finite (of_int b)) = Finite (of_int (a - b))"
  using round_double_int [of "a - b"] by (simp add: num_sub_def)

lemma array_get_int:
  "0 \<le> j \<Longrightarrow> j < int (length xs) \<Longrightarrow> array_get (map Some xs) (Finite (of_int j)) = Some (xs ! nat j)"
  by (simp add: nat_less_iff)

lemma round_double_numeral:
  "numeral k \<le> (2::int) ^ 53 \<Longrightarrow> round_double (numeral k) = Finite (numeral k)"
  using round_double_int [of "numeral k"] by simp

lemma round_double_neg_numeral:
  "numeral k \<le> (2::int) ^ 53 \<Longrightarrow> round_double (- numeral k) = Finite (- numeral k)"
  using round_double_int [of "- numeral k"] by simp

lemma round_double_0: "round_double 0 = Finite 0"
  using round_double_int [of 0] by simp

lemma round_double_1: "round_double 1 = Finite 1"
  using round_double_int [of 1] by simp

lemma to_double_underflow:
  assumes "\<bar>x\<bar> < pow2 (- 1075)"
  shows "to_double x = 0"
proof (cases "x = 0")
  case True
  then show ?thesis by (simp add: to_double_0)
next
  case False
  then have pos: "0 < \<bar>x\<bar>" by simp
  have "binary_exponent \<bar>x\<bar> < - 1075"
    using pos assms by (rule binary_exponent_less)
  then have e: "max (binary_exponent \<bar>x\<bar>) (- 1022) = - 1022" by simp
  have "\<bar>x\<bar> * pow2 1074 < pow2 (- 1075) * pow2 1074"
    using assms pow2_pos [of 1074] by (simp only: mult_less_cancel_right_pos)
  also have "\<dots> = pow2 (- 1)" by (simp flip: pow2_add)
  also have "\<dots> = 1 / 2" by (simp add: pow2_minus pow2_1)
  finally have small: "\<bar>x\<bar> * pow2 1074 < 1 / 2" .
  have nonneg: "0 \<le> \<bar>x\<bar> * pow2 1074"
    using pow2_pos [of 1074] by simp
  have fl: "\<lfloor>\<bar>x\<bar> * pow2 1074\<rfloor> = 0"
    using small nonneg by (intro floor_unique) simp_all
  have "round_half_even (\<bar>x\<bar> * pow2 1074) = 0"
    using small by (simp add: round_half_even_def Let_def fl)
  then show ?thesis
    using to_double_unfold [OF False] unfolding e by simp
qed

subsection \<open>Moving average\<close>

lemma window_loop_exact:
  assumes "\<bar>hi\<bar> < 2 ^ 53"
  shows "\<bar>j\<bar> \<le> 2 ^ 53 \<Longrightarrow>
    window_loop (map Some xs) (Finite (of_int j)) (Finite (of_int hi)) (s, c) =
      Some (foldl num_add s (map (\<lambda>k. xs ! nat k) (filter (\<lambda>k. 0 \<le> k \<and> k < int (length xs)) [j..hi])),
            c + length (filter (\<lambda>k. 0 \<le> k \<and> k < int (length xs)) [j..hi]))"
proof (induction "nat (hi + 1 - j)" arbitrary: j s c)
  case 0
  then have "\<not> j \<le> hi" by simp
  then show ?case by (subst window_loop.simps) simp
next
  case (Suc n)
  then have le: "j \<le> hi" and n: "n = nat (hi + 1 - (j + 1))" by simp_all
  have j1: "\<bar>j + 1\<bar> \<le> 2 ^ 53" using le assms Suc.prems by linarith
  have step: "num_add (Finite (of_int j)) (Finite 1) = Finite (of_int (j + 1))"
    using num_add_int [of j 1] j1 by simp
  have up: "[j..hi] = j # [j + 1..hi]" using le by (simp add: upto_rec1)
  note IH = Suc.hyps(1) [OF n j1]
  show ?case
  proof (cases "0 \<le> j \<and> j < int (length xs)")
    case True
    then have get: "array_get (map Some xs) (Finite (of_int j)) = Some (xs ! nat j)"
      by (intro array_get_int) simp_all
    have "window_loop (map Some xs) (Finite (of_int j)) (Finite (of_int hi)) (s, c) =
        window_loop (map Some xs) (Finite (of_int (j + 1))) (Finite (of_int hi))
          (num_add s (xs ! nat j), c + 1)"
      using le True
      by (subst window_loop.simps) (simp only: step get, simp)
    also note IH
    finally show ?thesis
      using True by (simp add: up)
  next
    case False
    have "window_loop (map Some xs) (Finite (of_int j)) (Finite (of_int hi)) (s, c) =
        window_loop (map Some xs) (Finite (of_int (j + 1))) (Finite (of_int hi)) (s, c)"
      using le False
      by (subst window_loop.simps) (simp only: step, auto)
    also note IH
    finally show ?thesis
      using False by (simp add: up)
  qed
qed

lemma average_loop_exact:
  assumes h: "0 \<le> h" "h + int (length xs) \<le> 2 ^ 53"
  shows "average_loop (map Some xs) (Finite (of_int h)) i result =
           Some (result @ map (mean_at xs h) [i..<length xs])"
proof (induction "length xs - i" arbitrary: i result)
  case 0
  then show ?case by (subst average_loop.simps) simp
next
  case (Suc n)
  then have i: "i < length xs" and n: "n = length xs - (i + 1)" by simp_all
  have lo: "num_sub (Finite (of_nat i)) (Finite (of_int h)) = Finite (of_int (int i - h))"
    using num_sub_int [of "int i" h] i h by simp
  have hi: "num_add (Finite (of_nat i)) (Finite (of_int h)) = Finite (of_int (int i + h))"
    using num_add_int [of "int i" h] i h by simp
  have b1: "\<bar>int i + h\<bar> < 2 ^ 53" using i h by simp
  have b2: "\<bar>int i - h\<bar> \<le> 2 ^ 53" using i h by simp
  have w: "window_loop (map Some xs) (Finite (of_int (int i - h))) (Finite (of_int (int i + h))) (Finite 0, 0)
      = Some (foldl num_add (Finite 0) (map (\<lambda>k. xs ! nat k) (filter (\<lambda>k. 0 \<le> k \<and> k < int (length xs)) [int i - h..int i + h])),
            length (filter (\<lambda>k. 0 \<le> k \<and> k < int (length xs)) [int i - h..int i + h]))"
    using window_loop_exact [OF b1 b2, of xs "Finite 0" 0] by simp
  have up: "[i..<length xs] = i # [i + 1..<length xs]"
    using i by (simp add: upt_conv_Cons)
  have "average_loop (map Some xs) (Finite (of_int h)) i result =
      average_loop (map Some xs) (Finite (of_int h)) (i + 1) (result @ [mean_at xs h i])"
    using i
    by (subst average_loop.simps) (simp only: lo hi w, simp add: mean_at_def Let_def)
  also have "\<dots> = Some ((result @ [mean_at xs h i]) @ map (mean_at xs h) [i + 1..<length xs])"
    by (rule Suc.hyps(1) [OF n])
  finally show ?case
    by (simp add: up)
qed

lemma spec_window_set:
  "set (spec_window n w i) =
     {j. int i - \<lfloor>w / 2\<rfloor> \<le> j \<and> j \<le> int i + \<lfloor>w / 2\<rfloor> \<and> 0 \<le> j \<and> j < int n}"
  by (auto simp: spec_window_def)

lemma spec_window_distinct: "distinct (spec_window n w i) \<and> sorted (spec_window n w i)"
  by (simp add: spec_window_def sorted_wrt_filter)

lemma spec_window_centre:
  assumes "1 < w" and "i < n"
  shows "int i \<in> set (spec_window n w i)"
proof -
  have "0 \<le> w / 2" using assms(1) by simp
  then have "0 \<le> \<lfloor>w / 2\<rfloor>" by simp
  then show ?thesis using assms(2) by (simp add: spec_window_set)
qed

lemma mean_at_double_mean:
  assumes "1 < w" and "i < length xs"
  shows "mean_at xs \<lfloor>w / 2\<rfloor> i = double_mean xs w i"
proof -
  have ne: "spec_window (length xs) w i \<noteq> []"
    using spec_window_centre [OF assms] by (cases "spec_window (length xs) w i") simp_all
  show ?thesis
    using ne [unfolded spec_window_def]
    unfolding mean_at_def double_mean_def Let_def spec_window_def by simp
qed

lemma halfWindow_exact:
  assumes "1 < w" and "to_double w = w" and "\<lfloor>w / 2\<rfloor> \<le> 2 ^ 53"
  shows "num_floor (num_div (Finite w) (Finite 2)) = Finite (of_int \<lfloor>w / 2\<rfloor>)"
proof -
  have "w / 2 < of_int (\<lfloor>w / 2\<rfloor> + 1)"
    using floor_correct [of "w / 2"] by (rule conjunct2)
  also have "\<dots> \<le> of_int (2 ^ 53 + 1)"
    using assms(3) by (simp only: of_int_le_iff add_le_cancel_right)
  also have "\<dots> \<le> pow2 54" by (simp add: pow2_nat)
  also have "\<dots> < pow2 1023" by (simp add: pow2_less_iff)
  finally have "w / 2 < pow2 1023" .
  moreover have "0 < w / 2" using assms(1) by simp
  ultimately have "\<bar>w / 2\<bar> < pow2 1023" by simp
  then have "round_double (w / 2) = Finite (w / 2)"
    using round_double_finite [of "w / 2"] to_double_half [OF assms(2,1)] by simp
  then show ?thesis by simp
qed

lemma calculateMovingAverage_double_mean:
  assumes "1 < w" and "to_double w = w" and "\<lfloor>w / 2\<rfloor> + int (length xs) \<le> 2 ^ 53"
  shows "calculateMovingAverage (map Some xs) (Finite w) =
           Some (map (\<lambda>i. Some (double_mean xs w i)) [0..<length xs])"
proof -
  have h0: "0 \<le> \<lfloor>w / 2\<rfloor>" using assms(1) by simp
  have "\<lfloor>w / 2\<rfloor> \<le> 2 ^ 53" using assms(3) by linarith
  then have hw: "num_floor (num_div (Finite w) (Finite 2)) = Finite (of_int \<lfloor>w / 2\<rfloor>)"
    using assms(1,2) by (intro halfWindow_exact)
  have "map (mean_at xs \<lfloor>w / 2\<rfloor>) [0..<length xs] = map (double_mean xs w) [0..<length xs]"
    using assms(1) by (simp add: mean_at_double_mean)
  then show ?thesis
    using assms(1) average_loop_exact [OF h0 assms(3), of 0 "[]"]
    by (simp add: calculateMovingAverage_def hw comp_def del: num_floor.simps num_div.simps)
qed

lemma foldl_num_add_int:
  "\<forall>n \<in> set ns. 0 \<le> n \<Longrightarrow> 0 \<le> a \<Longrightarrow> a + sum_list ns \<le> 2 ^ 53 \<Longrightarrow>
   foldl num_add (Finite (of_int a)) (map (\<lambda>n. Finite (of_int n)) ns) = Finite (of_int (a + sum_list ns))"
proof (induction ns arbitrary: a)
  case Nil
  then show ?case by simp
next
  case (Cons n ns)
  have rest: "0 \<le> sum_list ns" using Cons.prems(1) by (intro sum_list_nonneg) simp
  have n: "0 \<le> n" using Cons.prems(1) by simp
  have "\<bar>a + n\<bar> \<le> 2 ^ 53" using Cons.prems(2,3) rest n by simp
  then have step: "num_add (Finite (of_int a)) (Finite (of_int n)) = Finite (of_int (a + n))"
    by (rule num_add_int)
  have "foldl num_add (Finite (of_int (a + n))) (map (\<lambda>n. Finite (of_int n)) ns)
      = Finite (of_int (a + n + sum_list ns))"
    using Cons.prems n by (intro Cons.IH) simp_all
  then show ?case
    by (simp only: list.map foldl_Cons step) (simp add: add.assoc)
qed

lemma sum_list_of_int: "sum_list (map of_int ns) = (of_int (sum_list ns) :: rat)"
  by (induction ns) simp_all

lemma spec_window_in_range:
  "j \<in> set (spec_window n w i) \<Longrightarrow> 0 \<le> j \<and> j < int n"
  by (simp add: spec_window_set)

lemma window_sum_le:
  assumes "\<forall>n \<in> set ns. 0 \<le> (n::int)"
  shows "sum_list (map (\<lambda>j. ns ! nat j) (spec_window (length ns) w i)) \<le> sum_list ns"
    and "0 \<le> sum_list (map (\<lambda>j. ns ! nat j) (spec_window (length ns) w i))"
proof -
  let ?W = "spec_window (length ns) w i"
  have d: "distinct ?W" using spec_window_distinct by blast
  have r: "\<And>j. j \<in> set ?W \<Longrightarrow> 0 \<le> j \<and> j < int (length ns)"
    by (rule spec_window_in_range)
  have inj: "inj_on nat (set ?W)"
    using r by (intro inj_onI) (metis nat_eq_iff2)
  have sub: "nat ` set ?W \<subseteq> {0..<length ns}"
    using r by (auto simp: nat_less_iff)
  have "sum_list (map (\<lambda>j. ns ! nat j) ?W) = sum (\<lambda>j. ns ! nat j) (set ?W)"
    using d by (rule sum_list_distinct_conv_sum_set)
  also have "\<dots> = sum (\<lambda>k. ns ! k) (nat ` set ?W)"
    using inj by (simp add: sum.reindex)
  finally have eq: "sum_list (map (\<lambda>j. ns ! nat j) ?W) = sum (\<lambda>k. ns ! k) (nat ` set ?W)" .
  have "sum (\<lambda>k. ns ! k) (nat ` set ?W) \<le> sum (\<lambda>k. ns ! k) {0..<length ns}"
    using sub assms by (intro sum_mono2) auto
  also have "\<dots> = sum_list ns"
    by (simp add: sum_list_sum_nth)
  finally show "sum_list (map (\<lambda>j. ns ! nat j) ?W) \<le> sum_list ns"
    by (simp only: eq)
  show "0 \<le> sum_list (map (\<lambda>j. ns ! nat j) ?W)"
    using assms r by (intro sum_list_nonneg) (auto simp: nat_less_iff)
qed

lemma double_mean_counts:
  assumes "1 < w" and "i < length ns"
    and nn: "\<forall>n \<in> set ns. 0 \<le> n" and total: "sum_list ns \<le> 2 ^ 53"
  shows "double_mean (map (\<lambda>n. Finite (of_int n)) ns) w i
       = Finite (to_double (spec_mean (map of_int ns) w i))"
proof -
  let ?W = "spec_window (length ns) w i"
  let ?S = "sum_list (map (\<lambda>j. ns ! nat j) ?W)"
  have r: "\<And>j. j \<in> set ?W \<Longrightarrow> nat j < length ns"
    using spec_window_in_range [of _ "length ns" w i] by (auto simp: nat_less_iff)
  have ne: "?W \<noteq> []"
    using spec_window_centre [OF assms(1,2)] by (cases ?W) simp_all
  then have c: "0 < length ?W" by simp
  have S: "0 \<le> ?S" "?S \<le> 2 ^ 53"
    using window_sum_le [OF nn, of w i] total by simp_all
  have vals: "map (\<lambda>j. map (\<lambda>n. Finite (of_int n)) ns ! nat j) ?W
      = map (\<lambda>n. Finite (of_int n)) (map (\<lambda>j. ns ! nat j) ?W)"
    using r by simp
  have "\<forall>n \<in> set (map (\<lambda>j. ns ! nat j) ?W). 0 \<le> n"
    using nn r by auto
  then have fold: "foldl num_add (Finite 0) (map (\<lambda>j. map (\<lambda>n. Finite (of_int n)) ns ! nat j) ?W)
      = Finite (of_int ?S)"
    unfolding vals
    using foldl_num_add_int [of "map (\<lambda>j. ns ! nat j) ?W" 0] S by simp
  have rvals: "map (\<lambda>j. map of_int ns ! nat j) ?W = map of_int (map (\<lambda>j. ns ! nat j) ?W)"
    using r by simp
  have mean: "spec_mean (map of_int ns) w i = of_int ?S / of_nat (length ?W)"
    unfolding spec_mean_def length_map rvals sum_list_of_int ..
  have "\<bar>of_int ?S / of_nat (length ?W) :: rat\<bar> \<le> of_int ?S"
  proof -
    have one: "(1::rat) \<le> of_nat (length ?W)" using c by (cases "length ?W") simp_all
    then have cpos: "(0::rat) < of_nat (length ?W)" by linarith
    have s0: "(0::rat) \<le> of_int ?S" using S(1) by simp
    have "(of_int ?S :: rat) * 1 \<le> of_int ?S * of_nat (length ?W)"
      using s0 one by (rule mult_left_mono [OF _ _, rotated]) 
    then have "(of_int ?S :: rat) / of_nat (length ?W) \<le> of_int ?S"
      using cpos by (simp only: pos_divide_le_eq mult_1_right)
    moreover have "(0::rat) \<le> of_int ?S / of_nat (length ?W)"
      using s0 cpos by (intro divide_nonneg_pos)
    ultimately show ?thesis by simp
  qed
  also have "\<dots> \<le> of_int (2 ^ 53)" using S(2) by (simp only: of_int_le_iff)
  also have "\<dots> = pow2 53" by (simp add: pow2_nat)
  also have "\<dots> < pow2 1023" by (simp add: pow2_less_iff)
  finally have fin: "round_double (of_int ?S / of_nat (length ?W))
      = Finite (to_double (of_int ?S / of_nat (length ?W)))"
    by (rule round_double_finite)
  have "double_mean (map (\<lambda>n. Finite (of_int n)) ns) w i
      = num_div (Finite (of_int ?S)) (Finite (of_nat (length ?W)))"
    unfolding double_mean_def length_map fold ..
  also have "\<dots> = round_double (of_int ?S / of_nat (length ?W))"
    using c by simp
  finally show ?thesis
    by (simp only: fin mean)
qed

lemma window_loop_stall_aux:
  assumes "window_loop data j hi acc = Some y"
  shows "\<not> (num_le j hi \<and> num_add j (Finite 1) = j)"
proof (rule window_loop.raw_induct
    [where P = "\<lambda>data j hi acc y. \<not> (num_le j hi \<and> num_add j (Finite 1) = j)", OF _ assms],
    goal_cases)
  case (1 window_loop' data j hi acc y)
  note IH = 1(1) and body = 1(2)
  show ?case
  proof
    assume stall: "num_le j hi \<and> num_add j (Finite 1) = j"
    with body obtain acc' where "window_loop' data j hi acc' = Some y"
      by (simp split: if_splits)
    from IH [OF this] stall show False by blast
  qed
qed

lemma window_loop_stall:
  "num_le j hi \<Longrightarrow> num_add j (Finite 1) = j \<Longrightarrow> window_loop data j hi acc = None"
  using window_loop_stall_aux [of data j hi acc] by (cases "window_loop data j hi acc") auto

text \<open>
  A window too wide for the counter: with \<open>windowSize = 2^55\<close> the counter starts at
  \<open>-2^54\<close>, where adding 1 rounds back to \<open>-2^54\<close>, and the inner loop never ends.
\<close>

lemma calculateMovingAverage_stalled_counter:
  "calculateMovingAverage [Some (Finite 1)] (Finite 36028797018963968) = None"
proof -
  have half: "round_double 18014398509481984 = Finite 18014398509481984"
    by code_simp
  have lo: "round_double (- 18014398509481984) = Finite (- 18014398509481984)"
    by code_simp
  have step: "round_double (- 18014398509481983) = Finite (- 18014398509481984)"
    by code_simp
  have "window_loop [Some (Finite 1)] (Finite (- 18014398509481984)) (Finite 18014398509481984) (Finite 0, 0) = None"
    by (rule window_loop_stall) (simp_all add: step)
  then have "average_loop [Some (Finite 1)] (Finite 18014398509481984) 0 [] = None"
    by (subst average_loop.simps) (simp add: num_sub_def lo half)
  then show ?thesis
    by (simp add: calculateMovingAverage_def half)
qed

lemma half_3: "\<lfloor>(3::rat) / 2\<rfloor> = 1"
  by (simp add: floor_unique)

lemma spec_window_3:
  "spec_window 3 3 0 = [0, 1]" "spec_window 3 3 1 = [0, 1, 2]" "spec_window 3 3 2 = [1, 2]"
  by (simp_all add: spec_window_def half_3 upto.simps)

text \<open>
  C5 (as amended). For a window size \<open>w > 1\<close> (a double, with \<open>\<lfloor>w/2\<rfloor>\<close> plus the length of the
  series at most \<open>2^53\<close>, so that the loop counter is exact) the function returns a series
  as long as the input, and position \<open>i\<close> holds the mean that doubles compute of the input
  values whose index lies in \<open>[i - \<lfloor>w/2\<rfloor>, i + \<lfloor>w/2\<rfloor>]\<close> and inside the series: the values
  added from left to right and the sum divided by their number, every operation rounded.
  The window shrinks at the edges; it is never empty, never padded and never wraps. For a
  series of counts (whole numbers from 0 on, of sum at most \<open>2^53\<close>) the sums are exact,
  and position \<open>i\<close> holds the arithmetic mean rounded to a double.
\<close>

theorem calculateMovingAverage_centered_mean:
  assumes "1 < w" and "to_double w = w" and "\<lfloor>w / 2\<rfloor> + int (length xs) \<le> 2 ^ 53"
    and "i < length xs"
  shows "\<exists>res. calculateMovingAverage (map Some xs) (Finite w) = Some res
       \<and> length res = length xs
       \<and> spec_window (length xs) w i \<noteq> []
       \<and> set (spec_window (length xs) w i) =
           {j. int i - \<lfloor>w / 2\<rfloor> \<le> j \<and> j \<le> int i + \<lfloor>w / 2\<rfloor> \<and> 0 \<le> j \<and> j < int (length xs)}
       \<and> res ! i = Some (double_mean xs w i)
       \<and> (\<forall>ns. xs = map (\<lambda>n. Finite (of_int n)) ns \<and> (\<forall>n \<in> set ns. 0 \<le> n) \<and> sum_list ns \<le> 2 ^ 53
             \<longrightarrow> res ! i = Some (Finite (to_double (spec_mean (map of_int ns) w i))))"
proof -
  let ?res = "map (\<lambda>i. Some (double_mean xs w i)) [0..<length xs]"
  have run: "calculateMovingAverage (map Some xs) (Finite w) = Some ?res"
    using assms(1-3) by (rule calculateMovingAverage_double_mean)
  have ne: "spec_window (length xs) w i \<noteq> []"
    using spec_window_centre [OF assms(1,4)] by (cases "spec_window (length xs) w i") simp_all
  have at: "?res ! i = Some (double_mean xs w i)"
    using assms(4) by simp
  have counts: "?res ! i = Some (Finite (to_double (spec_mean (map of_int ns) w i)))"
    if "xs = map (\<lambda>n. Finite (of_int n)) ns \<and> (\<forall>n \<in> set ns. 0 \<le> n) \<and> sum_list ns \<le> 2 ^ 53" for ns
    using that assms(1,4) double_mean_counts [of w i ns] at by simp
  show ?thesis
    using run ne at counts by (intro exI [of _ ?res]) (simp add: spec_window_set)
qed

theorem calculateMovingAverage_centered_mean_witness:
  "\<exists>res. calculateMovingAverage [Some (Finite 3), Some (Finite 6), Some (Finite 9), Some (Finite 12)] (Finite 3)
          = Some res
     \<and> length res = 4 \<and> res ! 0 = Some (Finite (9 / 2)) \<and> res ! 2 = Some (Finite 9)"
proof -
  let ?xs = "[Finite 3, Finite 6, Finite 9, Finite 12]"
  let ?ns = "[3, 6, 9, 12 :: int]"
  have w: "to_double 3 = 3"
    using to_double_int [of 3] by simp
  have half: "\<lfloor>(3::rat) / 2\<rfloor> = 1"
    by (simp add: floor_unique)
  have len: "length ?xs = 4" "length (map rat_of_int ?ns) = 4"
    by simp_all
  have b: "\<lfloor>(3::rat) / 2\<rfloor> + int (length ?xs) \<le> 2 ^ 53"
    unfolding len half by simp
  have xs: "?xs = map (\<lambda>n. Finite (of_int n)) ?ns \<and> (\<forall>n \<in> set ?ns. 0 \<le> n) \<and> sum_list ?ns \<le> 2 ^ 53"
    by simp
  have win: "spec_window 4 3 0 = [0, 1]" "spec_window 4 3 2 = [1, 2, 3]"
    by (simp_all add: spec_window_def half upto.simps)
  have m0: "spec_mean (map of_int ?ns) 3 0 = 9 / 2"
    unfolding spec_mean_def len win by simp
  have m2: "spec_mean (map of_int ?ns) 3 2 = 9"
    unfolding spec_mean_def len win by simp
  have r0: "to_double (9 / 2) = 9 / 2"
    using to_double_exact [of "9 / 2" 9 "- 1"] by (simp add: pow2_minus pow2_1)
  have r2: "to_double 9 = 9"
    using to_double_int [of 9] by simp
  have i0: "0 < length ?xs" and i2: "2 < length ?xs" and w1: "(1::rat) < 3"
    by simp_all
  from calculateMovingAverage_centered_mean [OF w1 w b i0]
  obtain res where run: "calculateMovingAverage (map Some ?xs) (Finite 3) = Some res"
    and len_res: "length res = length ?xs"
    and c0: "\<forall>ns. ?xs = map (\<lambda>n. Finite (of_int n)) ns \<and> (\<forall>n \<in> set ns. 0 \<le> n) \<and> sum_list ns \<le> 2 ^ 53
              \<longrightarrow> res ! 0 = Some (Finite (to_double (spec_mean (map of_int ns) 3 0)))"
    by blast
  from calculateMovingAverage_centered_mean [OF w1 w b i2]
  obtain res' where run': "calculateMovingAverage (map Some ?xs) (Finite 3) = Some res'"
    and c2: "\<forall>ns. ?xs = map (\<lambda>n. Finite (of_int n)) ns \<and> (\<forall>n \<in> set ns. 0 \<le> n) \<and> sum_list ns \<le> 2 ^ 53
              \<longrightarrow> res' ! 2 = Some (Finite (to_double (spec_mean (map of_int ns) 3 2)))"
    by blast
  have same: "res' = res" using run run' by simp
  have v0: "res ! 0 = Some (Finite (9 / 2))"
    using c0 [rule_format, OF xs] by (simp only: m0 r0)
  have v2: "res ! 2 = Some (Finite 9)"
    using c2 [rule_format, OF xs] by (simp only: m2 r2 same)
  have "calculateMovingAverage [Some (Finite 3), Some (Finite 6), Some (Finite 9), Some (Finite 12)] (Finite 3) = Some res"
    using run by simp
  moreover have "length res = 4"
    using len_res by (simp only: len)
  ultimately show ?thesis
    using v0 v2 by blast
qed

text \<open>
  The arithmetic mean is not what the function returns. At \<open>[1, 1, 2]\<close> with the window 3
  the mean at position 1 is 4/3, which no double equals, and the function returns the
  double next to it. At \<open>[10^16, 1, -10^16]\<close> the mean at position 1 is 1/3; the sum
  \<open>10^16 + 1\<close> rounds to \<open>10^16\<close>, and the function returns 0, which is not the double
  nearest to 1/3 either. And not every window size above 1 gives a result: with
  \<open>windowSize = 2^55\<close> the counter of the inner loop starts at \<open>-2^54\<close>, where adding 1
  rounds back to \<open>-2^54\<close>, and the function never returns.
\<close>

theorem calculateMovingAverage_centered_mean_counterexample:
  "calculateMovingAverage [Some (Finite 1), Some (Finite 1), Some (Finite 2)] (Finite 3)
     = Some [Some (Finite 1), Some (Finite (6004799503160661 / 4503599627370496)), Some (Finite (3 / 2))]
   \<and> spec_mean [1, 1, 2] 3 1 = 4 / 3
   \<and> Finite (6004799503160661 / 4503599627370496) \<noteq> Finite (spec_mean [1, 1, 2] 3 1)
   \<and> calculateMovingAverage
       [Some (Finite 10000000000000000), Some (Finite 1), Some (Finite (- 10000000000000000))] (Finite 3)
     = Some [Some (Finite 5000000000000000), Some (Finite 0), Some (Finite (- 5000000000000000))]
   \<and> spec_mean [10000000000000000, 1, - 10000000000000000] 3 1 = 1 / 3
   \<and> Finite 0 \<noteq> Finite (to_double (spec_mean [10000000000000000, 1, - 10000000000000000] 3 1))
   \<and> calculateMovingAverage [Some (Finite 1)] (Finite 36028797018963968) = None"
proof -
  let ?xs = "[Finite 1, Finite 1, Finite 2]"
  let ?ys = "[Finite 10000000000000000, Finite 1, Finite (- 10000000000000000)]"
  have w: "to_double 3 = 3"
    using to_double_int [of 3] by simp
  have len: "length ?xs = 3" "length ?ys = 3" "length [1, 1, 2 :: rat] = 3"
    "length [10000000000000000, 1, - 10000000000000000 :: rat] = 3"
    by simp_all
  have upt: "[0..<3] = [0, 1, 2]"
    by (simp add: upt_rec)
  have q1: "round_double (4 / 3) = Finite (6004799503160661 / 4503599627370496)"
    by code_simp
  have q2: "round_double (3 / 2) = Finite (3 / 2)"
    by code_simp
  have q3: "round_double 10000000000000000 = Finite 10000000000000000"
    by code_simp
  have q4: "round_double 10000000000000001 = Finite 10000000000000000"
    by code_simp
  have q5: "round_double (- 9999999999999999) = Finite (- 10000000000000000)"
    by code_simp
  have q6: "to_double (1 / 3) = 6004799503160661 / 18014398509481984"
    by code_simp
  have x: "calculateMovingAverage (map Some ?xs) (Finite 3)
      = Some (map (\<lambda>i. Some (double_mean ?xs 3 i)) [0..<length ?xs])"
    using w by (intro calculateMovingAverage_double_mean) (simp_all add: half_3)
  have x0: "double_mean ?xs 3 0 = Finite 1"
    unfolding double_mean_def len spec_window_3
    by (simp add: round_double_0 round_double_1 round_double_numeral)
  have x1: "double_mean ?xs 3 1 = Finite (6004799503160661 / 4503599627370496)"
    unfolding double_mean_def len spec_window_3
    by (simp add: round_double_0 round_double_1 round_double_numeral q1)
  have x2: "double_mean ?xs 3 2 = Finite (3 / 2)"
    unfolding double_mean_def len spec_window_3
    by (simp add: round_double_0 round_double_1 round_double_numeral q2)
  have y: "calculateMovingAverage (map Some ?ys) (Finite 3)
      = Some (map (\<lambda>i. Some (double_mean ?ys 3 i)) [0..<length ?ys])"
    using w by (intro calculateMovingAverage_double_mean) (simp_all add: half_3)
  have y0: "double_mean ?ys 3 0 = Finite 5000000000000000"
    unfolding double_mean_def len spec_window_3
    by (simp add: q3 q4 round_double_numeral)
  have y1: "double_mean ?ys 3 1 = Finite 0"
    unfolding double_mean_def len spec_window_3
    by (simp add: q3 q4 round_double_0)
  have y2: "double_mean ?ys 3 2 = Finite (- 5000000000000000)"
    unfolding double_mean_def len spec_window_3
    by (simp add: round_double_1 q5 round_double_neg_numeral)
  have m1: "spec_mean [1, 1, 2] 3 1 = 4 / 3"
    unfolding spec_mean_def len spec_window_3 by simp
  have m2: "spec_mean [10000000000000000, 1, - 10000000000000000] 3 1 = 1 / 3"
    unfolding spec_mean_def len spec_window_3 by simp
  have rx: "calculateMovingAverage [Some (Finite 1), Some (Finite 1), Some (Finite 2)] (Finite 3)
     = Some [Some (Finite 1), Some (Finite (6004799503160661 / 4503599627370496)), Some (Finite (3 / 2))]"
    using x x1 unfolding len upt by (simp add: x0 x2)
  have ry: "calculateMovingAverage
       [Some (Finite 10000000000000000), Some (Finite 1), Some (Finite (- 10000000000000000))] (Finite 3)
     = Some [Some (Finite 5000000000000000), Some (Finite 0), Some (Finite (- 5000000000000000))]"
    using y y1 unfolding len upt by (simp add: y0 y2)
  show ?thesis
    unfolding m1 m2 q6 using rx ry calculateMovingAverage_stalled_counter by simp
qed

text \<open>
  C6. With a window size of at most 1 the series is returned unchanged.
\<close>

theorem calculateMovingAverage_identity:
  "num_le windowSize (Finite 1) \<Longrightarrow> calculateMovingAverage data windowSize = Some data"
  by (simp add: calculateMovingAverage_def)

theorem calculateMovingAverage_identity_witness:
  "calculateMovingAverage [Some (Finite 4), None, Some (Finite (1 / 2))] (Finite 1)
     = Some [Some (Finite 4), None, Some (Finite (1 / 2))]"
  using calculateMovingAverage_identity [of "Finite 1" "[Some (Finite 4), None, Some (Finite (1 / 2))]"]
  by simp

subsection \<open>The change-statistics estimate\<close>

lemma commit_loop_sum:
  "\<forall>c \<in> set cs. commit u p r c \<noteq> Rejected \<Longrightarrow>
   commit_loop u p r cs (a, d) =
     Some (a + sum_list (map (\<lambda>c. spec_commit_added (commit u p r c)) (filter (\<lambda>c. succeeded (commit u p r c)) cs)),
           d + sum_list (map (\<lambda>c. spec_commit_deleted (commit u p r c)) (filter (\<lambda>c. succeeded (commit u p r c)) cs)))"
proof (induction cs arbitrary: a d)
  case Nil
  then show ?case by simp
next
  case (Cons c cs)
  then show ?case
    by (cases "commit u p r c")
       (auto simp: spec_commit_added_def spec_commit_deleted_def succeeded_def Let_def
             split: option.splits)
qed

lemma commit_loop_rejected:
  "\<exists>c \<in> set cs. commit u p r c = Rejected \<Longrightarrow> commit_loop u p r cs (a, d) = None"
proof (induction cs arbitrary: a d)
  case Nil
  then show ?case by simp
next
  case (Cons c cs)
  then show ?case
    by (cases "commit u p r c") (auto simp: Let_def split: option.splits)
qed

text \<open>
  What the function returns in each case. When the commit list arrives and no detail
  request throws, the estimate is the sum, over the commits whose detail request
  succeeds, of \<open>adds * 50 + edits * 15\<close> and of \<open>deletes * 30 + edits * 5\<close>: a detail
  request answered with a failure status adds nothing and the loop goes on. When the
  commit list is refused, or any request throws and the \<^verbatim>\<open>catch\<close> takes over, the result
  is \<open>{added: 0, deleted: 0}\<close>.
\<close>

lemma getPRChangeStats_cases:
  "(\<forall>commitsData.
      commits u projectName repoId pullRequest = Ok commitsData
      \<and> (\<forall>c \<in> set (or_empty commitsData). commit u projectName repoId c \<noteq> Rejected)
      \<longrightarrow> getPRChangeStats u projectName repoId pullRequest =
            \<lparr>added = sum_list (map (\<lambda>c. spec_commit_added (commit u projectName repoId c))
                        (filter (\<lambda>c. succeeded (commit u projectName repoId c)) (or_empty commitsData))),
             deleted = sum_list (map (\<lambda>c. spec_commit_deleted (commit u projectName repoId c))
                        (filter (\<lambda>c. succeeded (commit u projectName repoId c)) (or_empty commitsData)))\<rparr>)
   \<and> (\<not> succeeded (commits u projectName repoId pullRequest)
        \<or> (\<exists>commitsData. commits u projectName repoId pullRequest = Ok commitsData
              \<and> (\<exists>c \<in> set (or_empty commitsData). commit u projectName repoId c = Rejected))
      \<longrightarrow> getPRChangeStats u projectName repoId pullRequest = \<lparr>added = 0, deleted = 0\<rparr>)"
  by (auto simp: getPRChangeStats_def commit_loop_sum commit_loop_rejected succeeded_def
           split: response.splits)

lemma getPRChangeStats_failure_status:
  "getPRChangeStats
     \<lparr>pullrequests = (\<lambda>p r t s. Ok None),
      commits = (\<lambda>p r n. Ok (Some [''a'', ''b'', ''c''])),
      commit = (\<lambda>p r c. if c = ''a'' then Ok (Some \<lparr>Add = Some 2, Edit = Some 1, Delete = None\<rparr>)
                        else if c = ''b'' then NotOk 404
                        else Ok (Some \<lparr>Add = None, Edit = Some 3, Delete = Some 1\<rparr>)),
      newDate = (\<lambda>s. None), isoDate = (\<lambda>t. [])\<rparr> ''P'' ''R'' (Some 7)
     = \<lparr>added = 160, deleted = 50\<rparr>"
  by (simp add: getPRChangeStats_def or_empty_def or_zero_def)

text \<open>
  C7. The claim is that the estimate sums over exactly the commits whose detail request
  succeeds, a failed detail request contributing zero without aborting the estimate. The
  loop over the commits sits inside the single \<^verbatim>\<open>try\<close> of the function, and only a
  failure status is skipped by \<^verbatim>\<open>if (commitResponse.ok)\<close>. For a pull request of three
  commits where the detail request of the second throws (the connection drops, or the
  body is no JSON), the claim gives 2 * 50 + 1 * 15 + 3 * 15 = 160 lines added and
  1 * 5 + 1 * 30 + 3 * 5 = 50 deleted, the contributions of the first and the third
  commit; the function returns \<open>{added: 0, deleted: 0}\<close>, the statistics of the first
  commit being discarded with the rest.
\<close>

theorem getPRChangeStats_rejected_commit_aborts:
  "getPRChangeStats
     \<lparr>pullrequests = (\<lambda>p r t s. Ok None),
      commits = (\<lambda>p r n. Ok (Some [''a'', ''b'', ''c''])),
      commit = (\<lambda>p r c. if c = ''a'' then Ok (Some \<lparr>Add = Some 2, Edit = Some 1, Delete = None\<rparr>)
                        else if c = ''b'' then Rejected
                        else Ok (Some \<lparr>Add = None, Edit = Some 3, Delete = Some 1\<rparr>)),
      newDate = (\<lambda>s. None), isoDate = (\<lambda>t. [])\<rparr> ''P'' ''R'' (Some 7)
     = \<lparr>added = 0, deleted = 0\<rparr>
   \<and> sum_list (map spec_commit_added
        [Ok (Some \<lparr>Add = Some 2, Edit = Some 1, Delete = None\<rparr>), Rejected,
         Ok (Some \<lparr>Add = None, Edit = Some 3, Delete = Some 1\<rparr>)]) = 160
   \<and> sum_list (map spec_commit_deleted
        [Ok (Some \<lparr>Add = Some 2, Edit = Some 1, Delete = None\<rparr>), Rejected,
         Ok (Some \<lparr>Add = None, Edit = Some 3, Delete = Some 1\<rparr>)]) = 50"
  by (simp add: getPRChangeStats_def or_empty_def or_zero_def
        spec_commit_added_def spec_commit_deleted_def)

subsection \<open>Pagination\<close>

lemma top_size_pos: "0 < top_size"
  by (simp add: top_size_def)

lemma page_loop_append:
  "page_loop u f cutoff p rn rid prs acc = acc @ spec_page_records u f cutoff p rn rid prs"
proof (induction prs arbitrary: acc)
  case Nil
  then show ?case by (simp add: spec_page_records_def)
next
  case (Cons pr prs)
  show ?case
    by (simp add: Cons spec_page_records_def spec_qualifies_def spec_instant_def
             split: option.splits)
qed


lemma paginate_stops:
  assumes "\<forall>k<n. full_page u p rid (m + k)"
    and "\<not> full_page u p rid (m + n)"
  shows "paginate u f cutoff p rn rid (m * top_size) acc req =
           Some (acc @ concat (map (\<lambda>k. spec_page_records u f cutoff p rn rid (page_at u p rid k)) [m..<m + n + 1]),
                 req @ map (\<lambda>k. k * top_size) [m..<m + n + 1])"
  using assms
proof (induction n arbitrary: m acc req)
  case 0
  then have nf: "\<not> full_page u p rid m" by simp
  show ?case
    using nf top_size_pos
    by (subst paginate.simps)
       (auto simp: full_page_def page_at_def succeeded_def spec_page_records_def page_loop_append Let_def
             split: response.splits)
next
  case (Suc n)
  have full: "full_page u p rid m" using Suc.prems(1) by force
  have rest: "\<forall>k<n. full_page u p rid (Suc m + k)"
    using Suc.prems(1) by (metis add_Suc_shift Suc_less_eq)
  have last: "\<not> full_page u p rid (Suc m + n)"
    using Suc.prems(2) by simp
  have up: "[m..<Suc m + n + 1] = m # [Suc m..<Suc m + n + 1]"
    by (simp add: upt_conv_Cons)
  have step: "paginate u f cutoff p rn rid (m * top_size) acc req =
      paginate u f cutoff p rn rid (Suc m * top_size)
        (acc @ spec_page_records u f cutoff p rn rid (page_at u p rid m)) (req @ [m * top_size])"
    using full top_size_pos
    by (subst paginate.simps)
       (auto simp: full_page_def page_at_def succeeded_def page_loop_append add.commute Let_def
             split: response.splits)
  show ?case
    unfolding step Suc.IH [OF rest last]
    using up by simp
qed


lemma paginate_forever_aux:
  assumes "paginate u fl cutoff p rn rid skip acc req = Some y"
  shows "\<not> (\<exists>m. skip = m * top_size \<and> (\<forall>k. full_page u p rid (m + k)))"
proof (rule paginate.raw_induct
    [where P = "\<lambda>u fl cutoff p rn rid skip acc req y.
                  \<not> (\<exists>m. skip = m * top_size \<and> (\<forall>k. full_page u p rid (m + k)))",
     OF _ assms], goal_cases)
  case (1 paginate' u fl cutoff p rn rid skip acc req y)
  note IH = 1(1) and body = 1(2)
  show ?case
  proof
    assume "\<exists>m. skip = m * top_size \<and> (\<forall>k. full_page u p rid (m + k))"
    then obtain m where m: "skip = m * top_size" and all: "\<forall>k. full_page u p rid (m + k)"
      by blast
    have full: "full_page u p rid m" using all [rule_format, of 0] by simp
    have next_all: "\<exists>m'. skip + top_size = m' * top_size \<and> (\<forall>k. full_page u p rid (m' + k))"
    proof (intro exI conjI allI)
      show "skip + top_size = Suc m * top_size" by (simp add: m)
      show "full_page u p rid (Suc m + k)" for k using all [rule_format, of "Suc k"] by simp
    qed
    from full obtain v where v: "pullrequests u p rid top_size skip = Ok v"
      and len: "top_size \<le> length (or_empty v)"
      by (auto simp: full_page_def page_at_def succeeded_def m split: response.splits)
    from body v len top_size_pos
    have "paginate' u fl cutoff p rn rid (skip + top_size)
             (page_loop u fl cutoff p rn rid (or_empty v) acc) (req @ [skip]) = Some y"
      by (auto simp: Let_def split: if_splits)
    from IH [OF this] next_all show False by blast
  qed
qed

lemma paginate_forever:
  "\<forall>k. full_page u p rid k \<Longrightarrow> paginate u fl cutoff p rn rid 0 acc req = None"
  using paginate_forever_aux [of u fl cutoff p rn rid 0 acc req]
  by (cases "paginate u fl cutoff p rn rid 0 acc req") auto

lemma spec_page_records_cutoff:
  assumes "r \<in> set (spec_page_records u fl cutoff p rn rid prs)"
  shows "\<exists>t. cutoff \<le> t \<and> closedDate r = isoDate u t"
proof -
  from assms obtain pr where pr: "spec_qualifies u cutoff pr"
    and r: "r = make_record u fl p rn rid pr (spec_instant u pr)"
    by (auto simp: spec_page_records_def)
  from pr have "cutoff \<le> spec_instant u pr"
    by (auto simp: spec_qualifies_def spec_instant_def split: option.splits)
  moreover have "closedDate r = isoDate u (spec_instant u pr)"
    by (simp add: r make_record_def Let_def)
  ultimately show ?thesis by blast
qed

text \<open>
  C3. The loop asks for offsets 0, \<open>top\<close>, \<open>2 * top\<close>, ... and stops with the first request
  that does not bring a full page (a page with fewer than \<open>top\<close> items, an empty page, or a
  failed request), not before and not later; while every page is full it never stops.
  What it emits is, page by page and in order, the record of every item that carries a
  completion date at or after the cutoff, wherever the item stands; items without a date
  are dropped, and each emitted record carries the day of an instant at or after the cutoff.
\<close>

theorem paginate_stops_at_first_short_page:
  "((\<forall>k<n. full_page u projectName repoId k) \<and> \<not> full_page u projectName repoId n \<longrightarrow>
      paginate u fetchLOCStats cutoffDate projectName repoName repoId 0 [] [] =
        Some (concat (map (\<lambda>k. spec_page_records u fetchLOCStats cutoffDate projectName repoName repoId
                                  (page_at u projectName repoId k)) [0..<n + 1]),
              map (\<lambda>k. k * top_size) [0..<n + 1]))
   \<and> ((\<forall>k. full_page u projectName repoId k) \<longrightarrow>
        paginate u fetchLOCStats cutoffDate projectName repoName repoId 0 [] [] = None)
   \<and> (\<forall>allRecords requested.
        paginate u fetchLOCStats cutoffDate projectName repoName repoId 0 [] [] = Some (allRecords, requested)
        \<longrightarrow> (\<forall>r \<in> set allRecords. \<exists>t. cutoffDate \<le> t \<and> closedDate r = isoDate u t))"
proof (intro conjI impI allI)
  assume "(\<forall>k<n. full_page u projectName repoId k) \<and> \<not> full_page u projectName repoId n"
  then show "paginate u fetchLOCStats cutoffDate projectName repoName repoId 0 [] [] =
      Some (concat (map (\<lambda>k. spec_page_records u fetchLOCStats cutoffDate projectName repoName repoId
                                (page_at u projectName repoId k)) [0..<n + 1]),
            map (\<lambda>k. k * top_size) [0..<n + 1])"
    using paginate_stops [of n u projectName repoId 0 fetchLOCStats cutoffDate repoName "[]" "[]"]
    by simp
next
  assume "\<forall>k. full_page u projectName repoId k"
  then show "paginate u fetchLOCStats cutoffDate projectName repoName repoId 0 [] [] = None"
    by (rule paginate_forever)
next
  fix allRecords requested
  assume run: "paginate u fetchLOCStats cutoffDate projectName repoName repoId 0 [] [] =
                 Some (allRecords, requested)"
  have "\<exists>k. \<not> full_page u projectName repoId k"
    using run paginate_forever [of u projectName repoId fetchLOCStats cutoffDate repoName "[]" "[]"]
    by auto
  then obtain m where m: "\<not> full_page u projectName repoId m"
    and least: "\<forall>k<m. full_page u projectName repoId k"
    using exists_least_iff [of "\<lambda>k. \<not> full_page u projectName repoId k"] by auto
  have "allRecords = concat (map (\<lambda>k. spec_page_records u fetchLOCStats cutoffDate projectName repoName repoId
                                (page_at u projectName repoId k)) [0..<m + 1])"
    using run least m
      paginate_stops [of m u projectName repoId 0 fetchLOCStats cutoffDate repoName "[]" "[]"]
    by simp
  then show "\<forall>r \<in> set allRecords. \<exists>t. cutoffDate \<le> t \<and> closedDate r = isoDate u t"
    by (auto dest: spec_page_records_cutoff)
qed

theorem paginate_stops_at_first_short_page_witness:
  "\<exists>allRecords.
     paginate
       \<lparr>pullrequests = (\<lambda>p r t s. Ok (Some (replicate (if s < 2000 then 1000 else if s = 2000 then 400 else 0)
            \<lparr>item_closedDate = Some ''2024-05-01T10:00:00Z'', createdBy = None,
             pullRequestId = Some 5, item_title = Some ''t''\<rparr>))),
        commits = (\<lambda>p r n. NotOk 500), commit = (\<lambda>p r c. NotOk 500),
        newDate = (\<lambda>s. Some 100), isoDate = (\<lambda>t. ''2024-05-01'')\<rparr>
       False 50 ''P'' ''N'' ''R'' 0 [] [] = Some (allRecords, [0, 1000, 2000])
     \<and> length allRecords = 2400"
proof -
  let ?u = "\<lparr>pullrequests = (\<lambda>p r t s. Ok (Some (replicate (if s < 2000 then 1000 else if s = 2000 then 400 else 0)
            \<lparr>item_closedDate = Some ''2024-05-01T10:00:00Z'', createdBy = None,
             pullRequestId = Some 5, item_title = Some ''t''\<rparr>))),
        commits = (\<lambda>p r n. NotOk 500), commit = (\<lambda>p r c. NotOk 500),
        newDate = (\<lambda>s. Some 100), isoDate = (\<lambda>t. ''2024-05-01'')\<rparr>"
  have full: "\<forall>k<2. full_page ?u ''P'' ''R'' k"
    by (auto simp: full_page_def page_at_def succeeded_def or_empty_def top_size_def)
  have short: "\<not> full_page ?u ''P'' ''R'' 2"
    by (simp add: full_page_def page_at_def succeeded_def or_empty_def top_size_def)
  have upt: "[0..<3] = [0, 1, 2]"
    by (simp add: upt_rec)
  show ?thesis
    using paginate_stops_at_first_short_page [of 2 ?u "''P''" "''R''" False 50 "''N''"] full short
    by (simp add: upt page_at_def or_empty_def top_size_def spec_page_records_def
                  spec_qualifies_def)
qed

subsection \<open>Digits, dates and their order\<close>

lemma char_less_int: "(c < c') = ((of_char c :: int) < of_char c')"
proof -
  have "(of_char c :: int) = int (of_char c)" "(of_char c' :: int) = int (of_char c')"
    by (simp_all add: of_nat_of_char)
  then show ?thesis by (simp add: less_char_def)
qed

lemma char_le_int: "(c \<le> c') = ((of_char c :: int) \<le> of_char c')"
proof -
  have "(of_char c :: int) = int (of_char c)" "(of_char c' :: int) = int (of_char c')"
    by (simp_all add: of_nat_of_char)
  then show ?thesis by (simp add: less_eq_char_def)
qed

lemma char_eq_int: "(c = c') = ((of_char c :: int) = of_char c')"
  by (metis char_of_char)

lemma is_digit_int: "is_digit c = (48 \<le> (of_char c :: int) \<and> (of_char c :: int) \<le> 57)"
  by (simp add: is_digit_def char_le_int)

lemma digit_val_range: "is_digit c \<Longrightarrow> 0 \<le> digit_val c \<and> digit_val c \<le> 9"
  by (simp add: is_digit_int digit_val_def)

lemma digit_char_val: "is_digit c \<Longrightarrow> digit_char (digit_val c) = c"
  by (simp add: digit_char_def digit_val_def)

lemma of_char_digit_char: "0 \<le> n \<Longrightarrow> n \<le> 9 \<Longrightarrow> (of_char (digit_char n) :: int) = 48 + n"
  by (simp add: digit_char_def of_char_of)

lemma digit_val_char: "0 \<le> n \<Longrightarrow> n \<le> 9 \<Longrightarrow> digit_val (digit_char n) = n"
  by (simp add: digit_val_def of_char_digit_char)

lemma is_digit_char: "0 \<le> n \<Longrightarrow> n \<le> 9 \<Longrightarrow> is_digit (digit_char n)"
  by (simp add: is_digit_int of_char_digit_char)

lemma digit_char_less:
  "0 \<le> a \<Longrightarrow> a \<le> 9 \<Longrightarrow> 0 \<le> b \<Longrightarrow> b \<le> 9 \<Longrightarrow> (digit_char a < digit_char b) = (a < b)"
  by (simp add: char_less_int of_char_digit_char)

lemma digit_char_eq:
  "0 \<le> a \<Longrightarrow> a \<le> 9 \<Longrightarrow> 0 \<le> b \<Longrightarrow> b \<le> 9 \<Longrightarrow> (digit_char a = digit_char b) = (a = b)"
  by (simp add: char_eq_int of_char_digit_char)

lemma lex_div_mod:
  fixes a b k :: int
  assumes "0 < k"
  shows "(a div k < b div k \<or> (a div k = b div k \<and> a mod k < b mod k)) = (a < b)"
proof
  assume l: "a div k < b div k \<or> (a div k = b div k \<and> a mod k < b mod k)"
  show "a < b"
  proof (cases "a div k < b div k")
    case True
    then have "a div k + 1 \<le> b div k" by simp
    then have "k * (a div k + 1) \<le> k * (b div k)"
      using assms by (intro mult_left_mono) simp_all
    moreover have "a < k * (a div k + 1)"
    proof -
      have "a = k * (a div k) + a mod k" by simp
      moreover have "a mod k < k" using assms by simp
      moreover have "k * (a div k + 1) = k * (a div k) + k" by (simp add: algebra_simps)
      ultimately show ?thesis by linarith
    qed
    moreover have "k * (b div k) \<le> b"
      using assms pos_mod_sign [of k b] mult_div_mod_eq [of k b] by linarith
    ultimately show ?thesis by linarith
  next
    case False
    with l have e: "a div k = b div k" and m: "a mod k < b mod k" by auto
    from e have "k * (a div k) = k * (b div k)" by simp
    then show ?thesis
      using mult_div_mod_eq [of k a] mult_div_mod_eq [of k b] m by linarith
  qed
next
  assume lt: "a < b"
  then have le: "a div k \<le> b div k"
    using assms by (intro zdiv_mono1) simp_all
  show "a div k < b div k \<or> (a div k = b div k \<and> a mod k < b mod k)"
  proof (cases "a div k = b div k")
    case True
    then have "k * (a div k) = k * (b div k)" by simp
    then have "a mod k < b mod k"
      using mult_div_mod_eq [of k a] mult_div_mod_eq [of k b] lt by linarith
    with True show ?thesis by simp
  next
    case False
    with le show ?thesis by simp
  qed
qed

lemma eq_div_mod:
  fixes a b k :: int
  shows "(a div k = b div k \<and> a mod k = b mod k) = (a = b)"
proof
  assume e: "a div k = b div k \<and> a mod k = b mod k"
  have "a = k * (a div k) + a mod k" by simp
  also have "\<dots> = k * (b div k) + b mod k" using e by simp
  also have "\<dots> = b" by simp
  finally show "a = b" .
next
  assume "a = b"
  then show "a div k = b div k \<and> a mod k = b mod k" by simp
qed

lemma small_div10: "0 \<le> (a::int) \<Longrightarrow> a \<le> 99 \<Longrightarrow> a div 10 mod 10 = a div 10"
proof -
  assume a: "0 \<le> a" "a \<le> 99"
  have "a div 10 \<le> 99 div 10" using a(2) by (intro zdiv_mono1) simp_all
  moreover have "0 \<le> a div 10" using a(1) by simp
  ultimately show ?thesis by simp
qed

lemma digit_bounds: "0 \<le> (n::int) mod 10 \<and> n mod 10 \<le> 9"
  by simp

lemma pad2_less:
  assumes "0 \<le> a" "a \<le> 99" "0 \<le> b" "b \<le> 99"
  shows "(pad2 a < pad2 b) = (a < b)"
proof -
  have "(pad2 a < pad2 b) =
       (a div 10 mod 10 < b div 10 mod 10 \<or> (a div 10 mod 10 = b div 10 mod 10 \<and> a mod 10 < b mod 10))"
    by (simp add: pad2_def digit_char_less digit_char_eq)
  also have "\<dots> = (a div 10 < b div 10 \<or> (a div 10 = b div 10 \<and> a mod 10 < b mod 10))"
    using assms by (simp add: small_div10)
  also have "\<dots> = (a < b)"
    by (rule lex_div_mod) simp
  finally show ?thesis .
qed

lemma pad2_eq:
  assumes "0 \<le> a" "a \<le> 99" "0 \<le> b" "b \<le> 99"
  shows "(pad2 a = pad2 b) = (a = b)"
proof -
  have "(pad2 a = pad2 b) = (a div 10 mod 10 = b div 10 mod 10 \<and> a mod 10 = b mod 10)"
    by (simp add: pad2_def digit_char_eq)
  also have "\<dots> = (a div 10 = b div 10 \<and> a mod 10 = b mod 10)"
    using assms by (simp add: small_div10)
  also have "\<dots> = (a = b)"
    by (rule eq_div_mod)
  finally show ?thesis .
qed

lemma pad4_split: "pad4 y = pad2 (y div 100) @ pad2 (y mod 100)"
proof -
  have "y div (100 * 10) = y div 100 div 10"
    by (rule zdiv_zmult2_eq) simp
  then have d3: "y div 100 div 10 mod 10 = y div 1000 mod 10"
    by simp
  have "y mod (10 * 10) = 10 * (y div 10 mod 10) + y mod 10"
    by (rule zmod_zmult2_eq) simp
  then have "y mod 100 div 10 = y div 10 mod 10"
    by simp
  then have d1: "y mod 100 div 10 mod 10 = y div 10 mod 10"
    by simp
  have d0: "y mod 100 mod 10 = y mod 10"
    by (simp add: mod_mod_cancel)
  show ?thesis
    unfolding pad4_def pad2_def by (simp only: d3 d1 d0 append.simps)
qed

lemma append_less_same_length:
  "length p = length p' \<Longrightarrow> (p @ q < p' @ q') = (p < p' \<or> (p = p' \<and> q < q'))"
  for p :: "'a::linorder list"
  by (induction p p' rule: list_induct2) auto

lemma length_pad2: "length (pad2 n) = 2"
  by (simp add: pad2_def)

lemma div100_bounds: "0 \<le> (a::int) \<Longrightarrow> a \<le> 9999 \<Longrightarrow> 0 \<le> a div 100 \<and> a div 100 \<le> 99"
proof -
  assume a: "0 \<le> a" "a \<le> 9999"
  have "a div 100 \<le> 9999 div 100" using a(2) by (intro zdiv_mono1) simp_all
  then show ?thesis using a(1) by simp
qed

lemma mod100_bounds: "0 \<le> (a::int) mod 100 \<and> a mod 100 \<le> 99"
  by simp

lemma pad4_less:
  assumes "0 \<le> a" "a \<le> 9999" "0 \<le> b" "b \<le> 9999"
  shows "(pad4 a < pad4 b) = (a < b)"
proof -
  have "(pad4 a < pad4 b) =
      (a div 100 < b div 100 \<or> (a div 100 = b div 100 \<and> a mod 100 < b mod 100))"
    using div100_bounds [OF assms(1,2)] div100_bounds [OF assms(3,4)]
    by (simp add: pad4_split append_less_same_length length_pad2 pad2_less pad2_eq)
  also have "\<dots> = (a < b)"
    by (rule lex_div_mod) simp
  finally show ?thesis .
qed

lemma pad4_eq:
  assumes "0 \<le> a" "a \<le> 9999" "0 \<le> b" "b \<le> 9999"
  shows "(pad4 a = pad4 b) = (a = b)"
proof -
  have "(pad4 a = pad4 b) = (a div 100 = b div 100 \<and> a mod 100 = b mod 100)"
    using div100_bounds [OF assms(1,2)] div100_bounds [OF assms(3,4)]
    by (simp add: pad4_split length_pad2 pad2_eq)
  also have "\<dots> = (a = b)"
    by (rule eq_div_mod)
  finally show ?thesis .
qed

lemma pad2_digits:
  assumes "0 \<le> n" "n \<le> 99"
  shows "\<exists>a b. pad2 n = [a, b] \<and> is_digit a \<and> is_digit b \<and> digit_val a * 10 + digit_val b = n"
proof -
  have q: "0 \<le> n div 10" "n div 10 \<le> 9"
    using assms zdiv_mono1 [of n 99 10] by simp_all
  have "n div 10 * 10 + n mod 10 = n" by simp
  then show ?thesis
    using q assms by (simp add: pad2_def small_div10 is_digit_char digit_val_char)
qed

lemma days_in_month_bounds: "28 \<le> days_in_month y m \<and> days_in_month y m \<le> 31"
  by (simp add: days_in_month_def)

lemma parse_iso_date_toISODate:
  assumes "valid_date (y, m, d)" and "0 \<le> y" and "y \<le> 9999"
  shows "parse_iso_date (toISODate (y, m, d)) = Some (y, m, d)"
proof -
  have dm: "d \<le> 31" using assms(1) days_in_month_bounds [of y m] by simp
  obtain y1 y2 where hi: "pad2 (y div 100) = [y1, y2]" "is_digit y1" "is_digit y2"
    "digit_val y1 * 10 + digit_val y2 = y div 100"
    using pad2_digits [of "y div 100"] div100_bounds [OF assms(2,3)] by blast
  obtain y3 y4 where lo: "pad2 (y mod 100) = [y3, y4]" "is_digit y3" "is_digit y4"
    "digit_val y3 * 10 + digit_val y4 = y mod 100"
    using pad2_digits [of "y mod 100"] mod100_bounds [of y] by blast
  obtain m1 m2 where mo: "pad2 m = [m1, m2]" "is_digit m1" "is_digit m2"
    "digit_val m1 * 10 + digit_val m2 = m"
    using pad2_digits [of m] assms(1) by auto
  obtain d1 d2 where da: "pad2 d = [d1, d2]" "is_digit d1" "is_digit d2"
    "digit_val d1 * 10 + digit_val d2 = d"
    using pad2_digits [of d] assms(1) dm by auto
  have yv: "digit_val y1 * 1000 + digit_val y2 * 100 + digit_val y3 * 10 + digit_val y4 = y"
  proof -
    have "y = y div 100 * 100 + y mod 100" by simp
    then show ?thesis using hi(4) lo(4) by linarith
  qed
  have iso: "toISODate (y, m, d) = [y1, y2, y3, y4, CHR ''-'', m1, m2, CHR ''-'', d1, d2]"
    using assms(3) by (simp add: pad4_split hi lo mo da)
  show ?thesis
    unfolding iso parse_iso_date_def
    using hi(2,3) lo(2,3) mo(2,3) da(2,3) yv mo(4) da(4) assms(1) by simp
qed

lemma parse_iso_date_Some:
  assumes "parse_iso_date s = Some (y, m, d)"
  shows "valid_date (y, m, d) \<and> 0 \<le> y \<and> y \<le> 9999 \<and> toISODate (y, m, d) = s"
proof -
  from assms obtain y1 y2 y3 y4 h1 m1 m2 h2 d1 d2
    where s: "s = [y1, y2, y3, y4, h1, m1, m2, h2, d1, d2]"
    by (auto simp: parse_iso_date_def split: list.splits)
  from assms have dig: "is_digit y1" "is_digit y2" "is_digit y3" "is_digit y4"
      "is_digit m1" "is_digit m2" "is_digit d1" "is_digit d2"
    and h: "h1 = CHR ''-''" "h2 = CHR ''-''"
    and y: "y = digit_val y1 * 1000 + digit_val y2 * 100 + digit_val y3 * 10 + digit_val y4"
    and m: "m = digit_val m1 * 10 + digit_val m2"
    and d: "d = digit_val d1 * 10 + digit_val d2"
    and v: "valid_date (y, m, d)"
    unfolding s parse_iso_date_def by (simp_all add: Let_def split: if_splits)
  have r: "0 \<le> digit_val y1" "digit_val y1 \<le> 9" "0 \<le> digit_val y2" "digit_val y2 \<le> 9"
    "0 \<le> digit_val y3" "digit_val y3 \<le> 9" "0 \<le> digit_val y4" "digit_val y4 \<le> 9"
    using dig digit_val_range by auto
  have yb: "0 \<le> y" "y \<le> 9999" using r unfolding y by linarith+
  have "parse_iso_date (toISODate (y, m, d)) = Some (y, m, d)"
    using v yb by (rule parse_iso_date_toISODate)
  have hi: "y div 100 = digit_val y1 * 10 + digit_val y2"
    by (rule int_div_pos_eq [where r = "digit_val y3 * 10 + digit_val y4"])
       (use r y in simp_all)
  have lo: "y mod 100 = digit_val y3 * 10 + digit_val y4"
    by (rule int_mod_pos_eq [where q = "digit_val y1 * 10 + digit_val y2"])
       (use r y in simp_all)
  have p2: "pad2 (digit_val a * 10 + digit_val b) = [a, b]" if "is_digit a" "is_digit b" for a b
  proof -
    have ra: "0 \<le> digit_val a" "digit_val a \<le> 9" and rb: "0 \<le> digit_val b" "digit_val b \<le> 9"
      using that digit_val_range by auto
    have q: "(digit_val a * 10 + digit_val b) div 10 = digit_val a"
      by (rule int_div_pos_eq [where r = "digit_val b"]) (use ra rb in simp_all)
    have r: "(digit_val a * 10 + digit_val b) mod 10 = digit_val b"
      by (rule int_mod_pos_eq [where q = "digit_val a"]) (use ra rb in simp_all)
    have "digit_val a mod 10 = digit_val a" "digit_val b mod 10 = digit_val b"
      using ra rb by simp_all
    then show ?thesis
      using that by (simp add: pad2_def q r digit_char_val)
  qed
  have "toISODate (y, m, d) = s"
    using yb(2) dig by (simp add: pad4_split hi lo m d p2 s h)
  then show ?thesis using v yb by simp
qed

lemma length_pad4: "length (pad4 n) = 4"
  by (simp add: pad4_def)

lemma valid_date_bounds:
  "valid_date (y, m, d) \<Longrightarrow> 0 \<le> m \<and> m \<le> 99 \<and> 0 \<le> d \<and> d \<le> 99"
  using days_in_month_bounds [of y m] by simp

lemma toISODate_less:
  assumes "valid_date (y, m, d)" "0 \<le> y" "y \<le> 9999"
    and "valid_date (y', m', d')" "0 \<le> y'" "y' \<le> 9999"
  shows "(toISODate (y, m, d) < toISODate (y', m', d')) =
         (y < y' \<or> (y = y' \<and> (m < m' \<or> (m = m' \<and> d < d'))))"
  using assms(2,3,5,6) valid_date_bounds [OF assms(1)] valid_date_bounds [OF assms(4)]
  by (simp add: append_less_same_length length_pad4 length_pad2 pad4_less pad4_eq pad2_less pad2_eq)

lemma toISODate_eq:
  assumes "valid_date (y, m, d)" "0 \<le> y" "y \<le> 9999"
    and "valid_date (y', m', d')" "0 \<le> y'" "y' \<le> 9999"
  shows "(toISODate (y, m, d) = toISODate (y', m', d')) = (y = y' \<and> m = m' \<and> d = d')"
  using assms(2,3,5,6) valid_date_bounds [OF assms(1)] valid_date_bounds [OF assms(4)]
  by (simp add: length_pad4 length_pad2 pad4_eq pad2_eq)

lemma toISODate_le:
  assumes "valid_date (y, m, d)" "0 \<le> y" "y \<le> 9999"
    and "valid_date (y', m', d')" "0 \<le> y'" "y' \<le> 9999"
  shows "(toISODate (y, m, d) \<le> toISODate (y', m', d')) = date_le (y, m, d) (y', m', d')"
  unfolding le_less [of "toISODate (y, m, d)"] toISODate_less [OF assms] toISODate_eq [OF assms]
  by auto

lemma date_le_refl: "date_le t t"
  by (cases t) auto

lemma date_le_trans: "date_le t u \<Longrightarrow> date_le u v \<Longrightarrow> date_le t v"
  by (cases t; cases u; cases v) auto

lemma date_le_year: "date_le t u \<Longrightarrow> fst t \<le> fst u"
  by (cases t; cases u) auto

lemma valid_next_day: "valid_date t \<Longrightarrow> valid_date (next_day t)"
  by (cases t) (auto simp: days_in_month_def)

lemma date_le_next_day: "date_le t (next_day t)"
  by (cases t) auto

lemma next_day_least:
  assumes "valid_date t" "valid_date u"
  shows "date_le (next_day t) u = (date_le t u \<and> t \<noteq> u)"
proof -
  obtain y m d where t: "t = (y, m, d)" by (cases t) auto
  obtain y' m' d' where u: "u = (y', m', d')" by (cases u) auto
  show ?thesis
    using assms unfolding t u by auto
qed

lemma next_day_year: "valid_date t \<Longrightarrow> fst t \<le> fst (next_day t)"
  by (cases t) auto

lemma next_prev_day: "valid_date t \<Longrightarrow> next_day (prev_day t) = t"
  by (cases t) (auto simp: days_in_month_def)

lemma add_days_simps: "add_days 0 t = t" "add_days 1 t = next_day t" "add_days (- 1) t = prev_day t"
  by (simp_all add: add_days_def)

lemma setDate_next_fixed:
  assumes "valid_date t" and "- 86400000 < c" and "c < 86400000"
  shows "setDate_next (fixed_zone c) (t, 0) = (next_day t, 0)"
proof (cases "0 \<le> c")
  case True
  then have dm: "c div 86400000 = 0" "c mod 86400000 = c"
    using assms(3) by simp_all
  show ?thesis
    by (simp add: setDate_next_def fixed_zone_def shift_def Let_def dm add_days_simps)
next
  case False
  then have r: "c = 86400000 * (- 1) + (c + 86400000)" "0 \<le> c + 86400000" "c + 86400000 < 86400000"
    using assms(2) by simp_all
  have dm: "c div 86400000 = - 1" "c mod 86400000 = c + 86400000"
    using int_div_pos_eq [OF r] int_mod_pos_eq [OF r] by simp_all
  show ?thesis
    using assms(1)
    by (simp add: setDate_next_def fixed_zone_def shift_def Let_def dm add_days_simps next_prev_day)
qed

subsection \<open>Objects and the gap-filling loop\<close>

lemma obj_get_set: "obj_get (obj_set ob k v) k' = (if k' = k then Some v else obj_get ob k')"
  by (induction ob) (auto simp: obj_get_def)

lemma keys_obj_set:
  "map fst (obj_set ob k v) = (if k \<in> fst ` set ob then map fst ob else map fst ob @ [k])"
proof (induction ob)
  case Nil
  show ?case by simp
next
  case (Cons p ob)
  obtain k' v' where p: "p = (k', v')" by (cases p) auto
  have mem: "(k \<in> fst ` set ((k', v') # ob)) = (k = k' \<or> k \<in> fst ` set ob)"
    by auto
  show ?case
    unfolding p mem using Cons.IH by (cases "k' = k") auto
qed

lemma obj_get_None: "(obj_get ob k = None) = (k \<notin> fst ` set ob)"
  by (simp add: obj_get_def map_of_eq_None_iff)

lemma set_obj_keys: "set (obj_keys ob) = fst ` set ob"
  by (auto simp: obj_keys_def)

lemma distinct_obj_keys: "distinct (map fst ob) \<Longrightarrow> distinct (obj_keys ob)"
  by (auto simp: obj_keys_def distinct_map_filter)


lemma date_rank_next_day: "date_rank d < date_rank (next_day d)"
  by (cases d) (auto simp: days_in_month_def min_def)

lemma date_rank_bound: "date_le d endDate \<Longrightarrow> date_rank d \<le> fst endDate * 500 + 448"
  by (cases d; cases endDate) (auto simp: min_def)

lemma jsdate_le_midnight: "jsdate_le (d, 0) (endDate, 0) = date_le d endDate"
  by (simp add: jsdate_le_def date_le_refl)

text \<open>
  In a zone of fixed offset the loop ends, and it adds exactly the days from \<open>d\<close> to
  \<open>endDate\<close> that have no bucket yet, each with the empty bucket.
\<close>

lemma fill_missing_days_fixed:
  assumes "- 86400000 < c" and "c < 86400000"
  shows "valid_date d \<Longrightarrow>
    \<exists>ob'. fill_missing_days (fixed_zone c) e (d, 0) (endDate, 0) ob = Some ob'
       \<and> fst ` set ob' = fst ` set ob \<union> toISODate ` {t. valid_date t \<and> date_le d t \<and> date_le t endDate}
       \<and> (\<forall>k b. obj_get ob k = Some b \<longrightarrow> obj_get ob' k = Some b)
       \<and> (\<forall>k b. obj_get ob k = None \<and> obj_get ob' k = Some b \<longrightarrow> b = e)
       \<and> (distinct (map fst ob) \<longrightarrow> distinct (map fst ob'))"
proof (induction "nat (fst endDate * 500 + 449 - date_rank d)" arbitrary: d ob rule: less_induct)
  case less
  show ?case
  proof (cases "date_le d endDate")
    case True
    let ?ob = "case obj_get ob (toISODate d) of None \<Rightarrow> obj_set ob (toISODate d) e | Some b \<Rightarrow> ob"
    have keys: "fst ` set ?ob = insert (toISODate d) (fst ` set ob)"
    proof (cases "obj_get ob (toISODate d)")
      case None
      then show ?thesis
        using keys_obj_set [of ob "toISODate d" e] obj_get_None [of ob "toISODate d"]
        by (auto simp flip: set_map)
    next
      case (Some b)
      then have "toISODate d \<in> fst ` set ob"
        using obj_get_None [of ob "toISODate d"] by auto
      with Some show ?thesis by auto
    qed
    have old: "obj_get ob k = Some b \<Longrightarrow> obj_get ?ob k = Some b" for k b
      by (auto simp: obj_get_set split: option.splits)
    have new: "obj_get ob k = None \<Longrightarrow> obj_get ?ob k = Some b \<Longrightarrow> b = e" for k b
      by (auto simp: obj_get_set split: option.splits if_splits)
    have dist: "distinct (map fst ob) \<Longrightarrow> distinct (map fst ?ob)"
      by (auto simp: keys_obj_set obj_get_None split: option.splits)
    have range: "{t. valid_date t \<and> date_le d t \<and> date_le t endDate} =
        insert d {t. valid_date t \<and> date_le (next_day d) t \<and> date_le t endDate}"
      using True less.prems by (auto simp: next_day_least date_le_refl)
    have smaller: "nat (fst endDate * 500 + 449 - date_rank (next_day d))
        < nat (fst endDate * 500 + 449 - date_rank d)"
      using date_rank_next_day [of d] date_rank_bound [OF True] by linarith
    from less.hyps [OF smaller valid_next_day [OF less.prems], of ?ob]
    obtain ob' where run': "fill_missing_days (fixed_zone c) e (next_day d, 0) (endDate, 0) ?ob = Some ob'"
      and k': "fst ` set ob' = fst ` set ?ob
          \<union> toISODate ` {t. valid_date t \<and> date_le (next_day d) t \<and> date_le t endDate}"
      and o': "\<forall>k b. obj_get ?ob k = Some b \<longrightarrow> obj_get ob' k = Some b"
      and n': "\<forall>k b. obj_get ?ob k = None \<and> obj_get ob' k = Some b \<longrightarrow> b = e"
      and d': "distinct (map fst ?ob) \<longrightarrow> distinct (map fst ob')"
      by blast
    have run: "fill_missing_days (fixed_zone c) e (d, 0) (endDate, 0) ob = Some ob'"
      using True run' setDate_next_fixed [OF less.prems assms]
      by (subst fill_missing_days.simps) (simp add: jsdate_le_midnight Let_def)
    have k: "fst ` set ob' = fst ` set ob
        \<union> toISODate ` {t. valid_date t \<and> date_le d t \<and> date_le t endDate}"
      unfolding k' keys range by auto
    have o: "\<forall>k b. obj_get ob k = Some b \<longrightarrow> obj_get ob' k = Some b"
      using o' old by blast
    have n: "\<forall>k b. obj_get ob k = None \<and> obj_get ob' k = Some b \<longrightarrow> b = e"
    proof (intro allI impI)
      fix k b
      assume a: "obj_get ob k = None \<and> obj_get ob' k = Some b"
      show "b = e"
      proof (cases "obj_get ?ob k")
        case None
        then show ?thesis using n' a by blast
      next
        case (Some b')
        then have "b' = e" using new a by blast
        moreover have "obj_get ob' k = Some b'" using o' Some by blast
        ultimately show ?thesis using a by simp
      qed
    qed
    have dd: "distinct (map fst ob) \<longrightarrow> distinct (map fst ob')"
      using d' dist by blast
    show ?thesis
      using run k o n dd by blast
  next
    case False
    have none: "{t. valid_date t \<and> date_le d t \<and> date_le t endDate} = {}"
      using False date_le_trans by blast
    have "fill_missing_days (fixed_zone c) e (d, 0) (endDate, 0) ob = Some ob"
      using False by (subst fill_missing_days.simps) (simp add: jsdate_le_midnight)
    then show ?thesis
      unfolding none by auto
  qed
qed

subsection \<open>Outlier removal\<close>

lemma set_insert_by: "set (insert_by cmp x ys) = insert x (set ys)"
  by (induction ys) auto

lemma length_insert_by: "length (insert_by cmp x ys) = Suc (length ys)"
  by (induction ys) auto

lemma set_array_sort: "set (array_sort cmp xs) = set xs"
  by (induction xs) (simp_all add: array_sort_def set_insert_by)

lemma length_array_sort: "length (array_sort cmp xs) = length xs"
  by (induction xs) (simp_all add: array_sort_def length_insert_by)

lemma array_sort_sorted:
  "sorted_wrt (\<lambda>a b. \<not> num_lt (Finite 0) (cmp a b)) xs \<Longrightarrow> array_sort cmp xs = xs"
proof (induction xs)
  case Nil
  then show ?case by (simp add: array_sort_def)
next
  case (Cons x xs)
  then have IH: "array_sort cmp xs = xs" by simp
  have "array_sort cmp (x # xs) = insert_by cmp x (array_sort cmp xs)"
    by (simp add: array_sort_def)
  also have "\<dots> = insert_by cmp x xs" by (simp only: IH)
  also have "\<dots> = x # xs"
    using Cons.prems by (cases xs) simp_all
  finally show ?case .
qed

lemma totalLines_not_NaN: "totalLines r \<noteq> NaN"
  by (simp add: totalLines_def round_double_def Let_def)

lemma num_le_refl: "x \<noteq> NaN \<Longrightarrow> num_le x x"
  by (cases x) simp_all

lemma percentile_index_range:
  assumes "num_le (Finite 0) p" and "0 < n"
  shows "\<exists>k. num_min (percentileIndex n p) (Finite (of_int (int n - 1))) = Finite (of_int k)
           \<and> 0 \<le> k \<and> k < int n"
proof -
  have q: "num_div p (Finite 100) = PosInf \<or> (\<exists>r. num_div p (Finite 100) = Finite r \<and> 0 \<le> r)"
  proof (cases p)
    case (Finite q)
    then have "0 \<le> q / 100" using assms(1) by simp
    from round_double_nonneg [OF this] show ?thesis
      by (simp add: Finite)
  qed (use assms(1) in \<open>simp_all add: signed_infinity_def\<close>)
  have m: "num_mul (Finite (of_nat n)) (num_div p (Finite 100)) = PosInf
      \<or> (\<exists>r. num_mul (Finite (of_nat n)) (num_div p (Finite 100)) = Finite r \<and> 0 \<le> r)"
    using q
  proof (elim disjE exE conjE)
    assume "num_div p (Finite 100) = PosInf"
    then show ?thesis using assms(2) by (simp add: signed_infinity_def)
  next
    fix r assume r: "num_div p (Finite 100) = Finite r" "0 \<le> r"
    then have "0 \<le> of_nat n * r" by simp
    from round_double_nonneg [OF this] show ?thesis
      by (simp add: r)
  qed
  have f: "percentileIndex n p = PosInf \<or> (\<exists>k. percentileIndex n p = Finite (of_int k) \<and> 0 \<le> k)"
    using m unfolding percentileIndex_def
  proof (elim disjE exE conjE)
    fix r assume "num_mul (Finite (of_nat n)) (num_div p (Finite 100)) = Finite r" "0 \<le> r"
    then show "num_floor (num_mul (Finite (of_nat n)) (num_div p (Finite 100))) = PosInf
        \<or> (\<exists>k. num_floor (num_mul (Finite (of_nat n)) (num_div p (Finite 100))) = Finite (of_int k) \<and> 0 \<le> k)"
      by (intro disjI2 exI [of _ "\<lfloor>r\<rfloor>"]) simp
  qed simp
  show ?thesis
    using f
  proof (elim disjE exE conjE)
    assume "percentileIndex n p = PosInf"
    then show ?thesis using assms(2) by (intro exI [of _ "int n - 1"]) simp
  next
    fix k assume k: "percentileIndex n p = Finite (of_int k)" "0 \<le> k"
    show ?thesis
    proof (cases "k \<le> int n - 1")
      case True
      then show ?thesis using k by (intro exI [of _ k]) simp
    next
      case False
      then show ?thesis using k assms(2) by (intro exI [of _ "int n - 1"]) simp
    qed
  qed
qed

lemma removeOutliers_threshold:
  assumes "records \<noteq> []"
    and "num_min (percentileIndex (length records) p) (Finite (of_int (int (length records) - 1)))
           = Finite (of_int k)"
    and "0 \<le> k" and "k < int (length records)"
  shows "removeOutliers records p =
           Inr (filter (\<lambda>r. num_le (totalLines r)
                  (snd (array_sort (\<lambda>a b. num_sub (snd a) (snd b)) (map (\<lambda>r. (r, totalLines r)) records)
                        ! nat k)))
                 records)"
proof -
  let ?rt = "map (\<lambda>r. (r, totalLines r)) records"
  let ?sorted = "array_sort (\<lambda>a b. num_sub (snd a) (snd b)) ?rt"
  have len: "length ?sorted = length records"
    by (simp add: length_array_sort)
  have get: "array_get (map Some ?sorted) (Finite (of_int k)) = Some (?sorted ! nat k)"
    using assms(3,4) len by (intro array_get_int) simp_all
  have flt: "map fst (filter (\<lambda>rt. num_le (snd rt) t) ?rt) = filter (\<lambda>r. num_le (totalLines r) t) records" for t
    by (simp add: filter_map comp_def)
  show ?thesis
    using assms(1)
    unfolding removeOutliers_def Let_def len assms(2) get flt
    by simp
qed

lemma removeOutliers_kept_nonempty:
  assumes "i < length records"
  shows "filter (\<lambda>r. num_le (totalLines r)
            (snd (array_sort cmp (map (\<lambda>r. (r, totalLines r)) records) ! i))) records \<noteq> []"
proof -
  let ?sorted = "array_sort cmp (map (\<lambda>r. (r, totalLines r)) records)"
  have "?sorted ! i \<in> set ?sorted"
    using assms by (intro nth_mem) (simp add: length_array_sort)
  then obtain r where r: "r \<in> set records" and eq: "?sorted ! i = (r, totalLines r)"
    by (auto simp: set_array_sort)
  have "num_le (totalLines r) (snd (?sorted ! i))"
    unfolding eq using totalLines_not_NaN [of r] by (simp add: num_le_refl)
  then show ?thesis
    using r unfolding filter_empty_conv by blast
qed

text \<open>
  C10. For a non-empty list and a percentile from 0 on (infinity included) the result is a
  non-empty subsequence of the input: the records are kept in their order, none twice,
  and the record that attains the threshold is among them. The empty list is returned as
  it is, whatever the percentile.
\<close>

theorem removeOutliers_nonempty_subsequence:
  "removeOutliers [] percentile = Inr []
   \<and> (records \<noteq> [] \<and> num_le (Finite 0) percentile \<longrightarrow>
        (\<exists>kept. removeOutliers records percentile = Inr kept \<and> kept \<noteq> [] \<and> subseq kept records))"
proof (intro conjI impI)
  show "removeOutliers [] percentile = Inr []"
    by (simp add: removeOutliers_def)
next
  assume a: "records \<noteq> [] \<and> num_le (Finite 0) percentile"
  then have n: "0 < length records" by simp
  from percentile_index_range [OF _ n, of percentile] a
  obtain k where k: "num_min (percentileIndex (length records) percentile)
                       (Finite (of_int (int (length records) - 1))) = Finite (of_int k)"
    and k0: "0 \<le> k" and kn: "k < int (length records)"
    by blast
  let ?t = "snd (array_sort (\<lambda>a b. num_sub (snd a) (snd b)) (map (\<lambda>r. (r, totalLines r)) records) ! nat k)"
  let ?kept = "filter (\<lambda>r. num_le (totalLines r) ?t) records"
  have run: "removeOutliers records percentile = Inr ?kept"
    using a k k0 kn by (intro removeOutliers_threshold) simp_all
  have "nat k < length records" using k0 kn by simp
  then have "?kept \<noteq> []"
    by (rule removeOutliers_kept_nonempty)
  moreover have "subseq ?kept records"
    by simp
  ultimately show "\<exists>kept. removeOutliers records percentile = Inr kept \<and> kept \<noteq> [] \<and> subseq kept records"
    using run by blast
qed

theorem removeOutliers_nonempty_subsequence_witness:
  "\<exists>kept. removeOutliers
       [\<lparr>author = ''a'', authorEmail = ''a@x'', project = ''P'', repository = ''R'',
         closedDate = ''2024-01-01'', prId = 1, title = ''t'', linesAdded = 10, linesDeleted = 2\<rparr>,
        \<lparr>author = ''b'', authorEmail = ''b@x'', project = ''P'', repository = ''R'',
         closedDate = ''2024-01-02'', prId = 2, title = ''u'', linesAdded = 900, linesDeleted = 100\<rparr>]
       (Finite 50)
       = Inr kept \<and> kept \<noteq> []"
  using removeOutliers_nonempty_subsequence
     [of "Finite 50" "[\<lparr>author = ''a'', authorEmail = ''a@x'', project = ''P'', repository = ''R'',
         closedDate = ''2024-01-01'', prId = 1, title = ''t'', linesAdded = 10, linesDeleted = 2\<rparr>,
        \<lparr>author = ''b'', authorEmail = ''b@x'', project = ''P'', repository = ''R'',
         closedDate = ''2024-01-02'', prId = 2, title = ''u'', linesAdded = 900, linesDeleted = 100\<rparr>]"]
  by auto

lemma filter_upto_le:
  assumes "0 \<le> m" and "m \<le> n"
  shows "filter (\<lambda>i. i \<le> m) [1..n] = [1..m]"
proof (cases "m = 0")
  case True
  then show ?thesis by (auto simp: filter_empty_conv)
next
  case False
  then have "1 \<le> m" using assms(1) by simp
  then have "[1..n] = [1..m] @ [m + 1..n]"
    using assms(2) by (rule upto_split2)
  moreover have "filter (\<lambda>i. i \<le> m) [1..m] = [1..m]"
    by (simp add: filter_id_conv)
  moreover have "filter (\<lambda>i. i \<le> m) [m + 1..n] = []"
    by (simp add: filter_empty_conv)
  ultimately show ?thesis by simp
qed

lemma removeOutliers_ascending:
  fixes f :: "int \<Rightarrow> PRRecord"
  assumes tl: "\<And>i. 1 \<le> i \<Longrightarrow> i \<le> n \<Longrightarrow> totalLines (f i) = Finite (of_int i)"
    and n: "1 \<le> n" "n \<le> 2 ^ 53"
    and idx: "num_min (percentileIndex (nat n) p) (Finite (of_int (n - 1))) = Finite (of_int k)"
    and k: "0 \<le> k" "k < n"
  shows "removeOutliers (map f [1..n]) p = Inr (map f [1..k + 1])"
proof -
  let ?rs = "map f [1..n]"
  let ?g = "\<lambda>i. (f i, totalLines (f i))"
  let ?cmp = "\<lambda>a b :: PRRecord \<times> jsnumber. num_sub (snd a) (snd b)"
  have len: "length ?rs = nat n" by simp
  have ne: "?rs \<noteq> []" using n(1) by simp
  have rt: "map (\<lambda>r. (r, totalLines r)) ?rs = map ?g [1..n]"
    by simp
  have ord: "\<not> num_lt (Finite 0) (?cmp (?g i) (?g j))"
    if "i \<in> set [1..n]" "j \<in> set [1..n]" "i < j" for i j
  proof -
    have "\<bar>i - j\<bar> \<le> 2 ^ 53" using that n(2) by simp
    then have "num_sub (Finite (of_int i)) (Finite (of_int j)) = Finite (of_int (i - j))"
      by (rule num_sub_int)
    then show ?thesis using that by (simp add: tl)
  qed
  have "sorted_wrt (\<lambda>i j. \<not> num_lt (Finite 0) (?cmp (?g i) (?g j))) [1..n]"
    using ord by (rule sorted_wrt_mono_rel [OF _ sorted_wrt_upto])
  then have "sorted_wrt (\<lambda>a b. \<not> num_lt (Finite 0) (?cmp a b)) (map ?g [1..n])"
    by (simp only: sorted_wrt_map)
  then have sorted: "array_sort ?cmp (map ?g [1..n]) = map ?g [1..n]"
    by (rule array_sort_sorted)
  have at: "map ?g [1..n] ! nat k = ?g (k + 1)"
    using k by (simp add: add.commute)
  have thr: "snd (array_sort ?cmp (map (\<lambda>r. (r, totalLines r)) ?rs) ! nat k) = Finite (of_int (k + 1))"
    unfolding rt sorted at using k by (simp add: tl)
  have keep: "filter (\<lambda>r. num_le (totalLines r) (Finite (of_int (k + 1)))) ?rs = map f [1..k + 1]"
  proof -
    have "filter (\<lambda>r. num_le (totalLines r) (Finite (of_int (k + 1)))) ?rs
        = map f (filter (\<lambda>i. num_le (totalLines (f i)) (Finite (of_int (k + 1)))) [1..n])"
      by (simp add: filter_map comp_def)
    also have "filter (\<lambda>i. num_le (totalLines (f i)) (Finite (of_int (k + 1)))) [1..n]
        = filter (\<lambda>i. i \<le> k + 1) [1..n]"
    proof (rule filter_cong)
      fix i assume "i \<in> set [1..n]"
      then have "totalLines (f i) = Finite (of_int i)" by (simp add: tl)
      then show "num_le (totalLines (f i)) (Finite (of_int (k + 1))) = (i \<le> k + 1)"
        by (simp only: num_le.simps of_int_le_iff)
    qed simp
    also have "\<dots> = [1..k + 1]"
      using k by (intro filter_upto_le) simp_all
    finally show ?thesis .
  qed
  have "removeOutliers ?rs p =
      Inr (filter (\<lambda>r. num_le (totalLines r)
             (snd (array_sort ?cmp (map (\<lambda>r. (r, totalLines r)) ?rs) ! nat k))) ?rs)"
    using ne idx k unfolding len [symmetric]
    by (intro removeOutliers_threshold) (simp_all add: n)
  then show ?thesis
    unfolding thr keep .
qed

lemma spec_removeOutliers_ascending:
  fixes f :: "int \<Rightarrow> PRRecord"
  assumes tl: "\<And>i. spec_totalLines (f i) = i"
    and k: "spec_index (nat n) p = k" "0 \<le> k" "k < n"
  shows "spec_removeOutliers (map f [1..n]) p = map f [1..k + 1]"
proof -
  have totals: "map spec_totalLines (map f [1..n]) = [1..n]"
    by (simp add: tl comp_def)
  have at: "sort [1..n] ! nat k = k + 1"
    using k by (simp add: sorted_sort_id add.commute)
  have "filter (\<lambda>r. spec_totalLines r \<le> k + 1) (map f [1..n])
      = map f (filter (\<lambda>i. i \<le> k + 1) [1..n])"
    by (simp add: filter_map comp_def tl)
  also have "\<dots> = map f [1..k + 1]"
    using k by (simp add: filter_upto_le)
  finally show ?thesis
    unfolding spec_removeOutliers_def totals length_map length_upto
    using k(1) by (simp only: diff_add_cancel at)
qed

text \<open>
  For a non-empty list and a percentile from 0 on, the result is the list of the records
  whose total is at most the total at the index the function computes, in the order of
  the input.
\<close>

lemma removeOutliers_threshold_filter:
  assumes "records \<noteq> []" and "num_le (Finite 0) percentile"
  shows "\<exists>k. num_min (percentileIndex (length records) percentile)
                (Finite (of_int (int (length records) - 1))) = Finite (of_int k)
           \<and> 0 \<le> k \<and> k < int (length records)
           \<and> removeOutliers records percentile =
               Inr (filter (\<lambda>r. num_le (totalLines r)
                      (snd (array_sort (\<lambda>a b. num_sub (snd a) (snd b))
                              (map (\<lambda>r. (r, totalLines r)) records) ! nat k)))
                     records)"
proof -
  have n: "0 < length records" using assms(1) by simp
  from percentile_index_range [OF assms(2) n]
  obtain k where k: "num_min (percentileIndex (length records) percentile)
                       (Finite (of_int (int (length records) - 1))) = Finite (of_int k)"
    "0 \<le> k" "k < int (length records)"
    by blast
  then show ?thesis
    using removeOutliers_threshold [OF assms(1) k] by blast
qed

lemma totalLines_example:
  assumes "1 \<le> i" and "i \<le> 100"
  shows "totalLines \<lparr>author = ''a'', authorEmail = ''a@x'', project = ''P'', repository = ''R'',
                      closedDate = ''2024-01-01'', prId = i, title = ''t'',
                      linesAdded = i, linesDeleted = 0\<rparr> = Finite (of_int i)"
  using num_add_int [of i 0] assms by (simp add: totalLines_def del: num_add.simps)

text \<open>
  On a hundred records with the totals 1 to 100 and the percentile 99, the index is 99
  and every record is kept.
\<close>

lemma removeOutliers_percentile_99:
  "percentileIndex 100 (Finite 99) = Finite 99
   \<and> removeOutliers
       (map (\<lambda>i. \<lparr>author = ''a'', authorEmail = ''a@x'', project = ''P'', repository = ''R'',
                   closedDate = ''2024-01-01'', prId = i, title = ''t'',
                   linesAdded = i, linesDeleted = 0\<rparr>) [1..100]) (Finite 99)
     = Inr (map (\<lambda>i. \<lparr>author = ''a'', authorEmail = ''a@x'', project = ''P'', repository = ''R'',
                   closedDate = ''2024-01-01'', prId = i, title = ''t'',
                   linesAdded = i, linesDeleted = 0\<rparr>) [1..100])"
proof -
  have "num_floor (num_mul (Finite 100) (num_div (Finite 99) (Finite 100))) = Finite 99"
    by code_simp
  then have idx: "percentileIndex 100 (Finite 99) = Finite 99"
    by (simp add: percentileIndex_def del: num_floor.simps num_mul.simps num_div.simps)
  then have m: "num_min (percentileIndex (nat 100) (Finite 99)) (Finite (of_int (100 - 1))) = Finite (of_int 99)"
    by simp
  show ?thesis
    using idx removeOutliers_ascending [OF totalLines_example _ _ m] by simp
qed

text \<open>
  C4. The claim puts the threshold at index \<open>min(\<lfloor>n \<cdot> p / 100\<rfloor>, n - 1)\<close> of the ascending
  totals. The function computes \<^verbatim>\<open>Math.floor(sorted.length * (percentile / 100))\<close> in
  doubles: for \<open>n = 100\<close> and \<open>p = 57\<close> the quotient \<open>57 / 100\<close> rounds to a double below
  0.57, the product is \<open>56.99999999999999\<close>, and the index is 56 where the claim has 57.
  On the hundred records with the totals 1 to 100 the threshold is therefore 57 instead
  of 58, and the record with the total 58, which the claim keeps, is removed.
\<close>

theorem removeOutliers_percentile_57:
  "percentileIndex 100 (Finite 57) = Finite 56
   \<and> spec_index 100 57 = 57
   \<and> removeOutliers
       (map (\<lambda>i. \<lparr>author = ''a'', authorEmail = ''a@x'', project = ''P'', repository = ''R'',
                   closedDate = ''2024-01-01'', prId = i, title = ''t'',
                   linesAdded = i, linesDeleted = 0\<rparr>) [1..100]) (Finite 57)
     = Inr (map (\<lambda>i. \<lparr>author = ''a'', authorEmail = ''a@x'', project = ''P'', repository = ''R'',
                   closedDate = ''2024-01-01'', prId = i, title = ''t'',
                   linesAdded = i, linesDeleted = 0\<rparr>) [1..57])
   \<and> spec_removeOutliers
       (map (\<lambda>i. \<lparr>author = ''a'', authorEmail = ''a@x'', project = ''P'', repository = ''R'',
                   closedDate = ''2024-01-01'', prId = i, title = ''t'',
                   linesAdded = i, linesDeleted = 0\<rparr>) [1..100]) 57
     = map (\<lambda>i. \<lparr>author = ''a'', authorEmail = ''a@x'', project = ''P'', repository = ''R'',
                   closedDate = ''2024-01-01'', prId = i, title = ''t'',
                   linesAdded = i, linesDeleted = 0\<rparr>) [1..58]"
proof -
  have "num_floor (num_mul (Finite 100) (num_div (Finite 57) (Finite 100))) = Finite 56"
    by code_simp
  then have idx: "percentileIndex 100 (Finite 57) = Finite 56"
    by (simp add: percentileIndex_def del: num_floor.simps num_mul.simps num_div.simps)
  then have m: "num_min (percentileIndex (nat 100) (Finite 57)) (Finite (of_int (100 - 1))) = Finite (of_int 56)"
    by simp
  have s: "spec_index 100 57 = 57"
    by (simp add: spec_index_def)
  then have s': "spec_index (nat 100) 57 = 57"
    by simp
  have run: "removeOutliers
       (map (\<lambda>i. \<lparr>author = ''a'', authorEmail = ''a@x'', project = ''P'', repository = ''R'',
                   closedDate = ''2024-01-01'', prId = i, title = ''t'',
                   linesAdded = i, linesDeleted = 0\<rparr>) [1..100]) (Finite 57)
     = Inr (map (\<lambda>i. \<lparr>author = ''a'', authorEmail = ''a@x'', project = ''P'', repository = ''R'',
                   closedDate = ''2024-01-01'', prId = i, title = ''t'',
                   linesAdded = i, linesDeleted = 0\<rparr>) [1..56 + 1])"
    by (rule removeOutliers_ascending [OF totalLines_example _ _ m]) simp_all
  have spec: "spec_removeOutliers
       (map (\<lambda>i. \<lparr>author = ''a'', authorEmail = ''a@x'', project = ''P'', repository = ''R'',
                   closedDate = ''2024-01-01'', prId = i, title = ''t'',
                   linesAdded = i, linesDeleted = 0\<rparr>) [1..100]) 57
     = map (\<lambda>i. \<lparr>author = ''a'', authorEmail = ''a@x'', project = ''P'', repository = ''R'',
                   closedDate = ''2024-01-01'', prId = i, title = ''t'',
                   linesAdded = i, linesDeleted = 0\<rparr>) [1..57 + 1]"
    by (rule spec_removeOutliers_ascending [OF _ s']) (simp_all add: spec_totalLines_def)
  show ?thesis
    using idx s run spec by simp
qed

text \<open>
  A negative percentile whose hundredth is nearer to zero than the least positive double:
  the quotient is zero, the index is 0, and the function returns.
\<close>

lemma percentileIndex_tiny_negative:
  "0 < n \<Longrightarrow> percentileIndex n (Finite (- pow2 (- 1074))) = Finite 0"
proof -
  have "\<bar>- pow2 (- 1074) / 100\<bar> = pow2 (- 1074) / 100"
    using pow2_pos [of "- 1074"] by simp
  also have "\<dots> < pow2 (- 1074) / 2"
    using pow2_pos [of "- 1074"] by (simp add: field_simps)
  also have "\<dots> = pow2 (- 1075)"
    using pow2_Suc [of "- 1075"] by simp
  finally have "to_double (- pow2 (- 1074) / 100) = 0"
    by (rule to_double_underflow)
  then have "round_double (- pow2 (- 1074) / 100) = Finite 0"
    by (simp add: round_double_def)
  then show ?thesis
    by (simp add: percentileIndex_def round_double_0)
qed

text \<open>
  Below the percentiles: with the percentile -50 the index is -1, \<^verbatim>\<open>sorted[-1]\<close> is
  \<^verbatim>\<open>undefined\<close>, and the read of \<^verbatim>\<open>.totalLines\<close> throws.
\<close>

lemma removeOutliers_negative_percentile:
  "removeOutliers
     [\<lparr>author = ''a'', authorEmail = ''a@x'', project = ''P'', repository = ''R'',
       closedDate = ''2024-01-01'', prId = 1, title = ''t'', linesAdded = 10, linesDeleted = 2\<rparr>]
     (Finite (- 50))
   = Inl TypeError"
proof -
  have "num_floor (num_mul (Finite 1) (num_div (Finite (- 50)) (Finite 100))) = Finite (- 1)"
    by code_simp
  then have "percentileIndex 1 (Finite (- 50)) = Finite (- 1)"
    by (simp add: percentileIndex_def del: num_floor.simps num_mul.simps num_div.simps)
  then show ?thesis
    by (simp add: removeOutliers_def array_sort_def Let_def)
qed

subsection \<open>Summary statistics\<close>

lemma filter_author_no_match:
  assumes "s \<noteq> []" and "\<forall>r \<in> set records. author r \<noteq> s"
  shows "filter_author records (Some s) = []"
  using assms by (auto simp: filter_author_def truthy_string_def filter_empty_conv)

lemma weekSpan_of_positive: "weekSpan_of filtered = Some w \<Longrightarrow> 1 \<le> w"
  by (auto simp: weekSpan_of_def Let_def split: option.splits)

text \<open>
  C8. On the empty list, and on any list in which the author asked for has no record,
  \<open>getStats\<close> returns \<open>{total: 0, avgPerWeek: '0', topContributor: 'N/A', weeks: 0}\<close> and
  \<open>getImpactStats\<close> the all-zero result, before any division. When records remain, the
  divisor \<open>weekSpan\<close> is at least 1 (or \<open>NaN\<close>, when a date does not parse).
\<close>

theorem getStats_empty_input:
  "getStats [] a = \<lparr>total' = 0, avgPerWeek = ''0'', topContributor = ''N/A'', weeks = Some 0\<rparr>
   \<and> getImpactStats [] a =
        \<lparr>totalAdded = 0, totalDeleted = 0, netChange = 0, i_avgPerWeek = ''0'',
         i_topContributor = ''N/A'', i_weeks = Some 0\<rparr>
   \<and> (s \<noteq> [] \<and> (\<forall>r \<in> set records. author r \<noteq> s) \<longrightarrow>
        getStats records (Some s) =
          \<lparr>total' = 0, avgPerWeek = ''0'', topContributor = ''N/A'', weeks = Some 0\<rparr>
        \<and> getImpactStats records (Some s) =
          \<lparr>totalAdded = 0, totalDeleted = 0, netChange = 0, i_avgPerWeek = ''0'',
           i_topContributor = ''N/A'', i_weeks = Some 0\<rparr>)
   \<and> (filter_author records a \<noteq> [] \<longrightarrow>
        (\<forall>w. weeks (getStats records a) = Some w \<longrightarrow> 1 \<le> w)
        \<and> (\<forall>w. i_weeks (getImpactStats records a) = Some w \<longrightarrow> 1 \<le> w))"
proof (intro conjI impI allI)
  show "getStats [] a = \<lparr>total' = 0, avgPerWeek = ''0'', topContributor = ''N/A'', weeks = Some 0\<rparr>"
    by (simp add: getStats_def filter_author_def)
  show "getImpactStats [] a =
        \<lparr>totalAdded = 0, totalDeleted = 0, netChange = 0, i_avgPerWeek = ''0'',
         i_topContributor = ''N/A'', i_weeks = Some 0\<rparr>"
    by (simp add: getImpactStats_def filter_author_def)
next
  assume "s \<noteq> [] \<and> (\<forall>r \<in> set records. author r \<noteq> s)"
  then have none: "filter_author records (Some s) = []"
    by (simp add: filter_author_no_match)
  show "getStats records (Some s) =
          \<lparr>total' = 0, avgPerWeek = ''0'', topContributor = ''N/A'', weeks = Some 0\<rparr>"
    by (simp add: getStats_def none)
  show "getImpactStats records (Some s) =
          \<lparr>totalAdded = 0, totalDeleted = 0, netChange = 0, i_avgPerWeek = ''0'',
           i_topContributor = ''N/A'', i_weeks = Some 0\<rparr>"
    by (simp add: getImpactStats_def none)
next
  fix w
  assume ne: "filter_author records a \<noteq> []"
  {
    assume "weeks (getStats records a) = Some w"
    then have "weekSpan_of (filter_author records a) = Some w"
      using ne by (simp add: getStats_def Let_def)
    then show "1 \<le> w" by (rule weekSpan_of_positive)
  }
  {
    assume "i_weeks (getImpactStats records a) = Some w"
    then have "weekSpan_of (filter_author records a) = Some w"
      using ne by (simp add: getImpactStats_def Let_def)
    then show "1 \<le> w" by (rule weekSpan_of_positive)
  }
qed

theorem getStats_empty_input_witness:
  "getStats [\<lparr>author = ''alice'', authorEmail = ''a@x'', project = ''A'', repository = ''R'',
              closedDate = ''2024-01-01'', prId = 1, title = ''t'', linesAdded = 10, linesDeleted = 2\<rparr>]
            (Some ''zed'')
     = \<lparr>total' = 0, avgPerWeek = ''0'', topContributor = ''N/A'', weeks = Some 0\<rparr>
   \<and> weeks (getStats [\<lparr>author = ''alice'', authorEmail = ''a@x'', project = ''A'', repository = ''R'',
              closedDate = ''2024-01-01'', prId = 1, title = ''t'', linesAdded = 10, linesDeleted = 2\<rparr>]
            None) = Some 1"
proof -
  let ?rs = "[\<lparr>author = ''alice'', authorEmail = ''a@x'', project = ''A'', repository = ''R'',
              closedDate = ''2024-01-01'', prId = 1, title = ''t'', linesAdded = 10, linesDeleted = 2\<rparr>]"
  have w: "weeks (getStats ?rs None) = Some 1"
    by code_simp
  have ne: "filter_author ?rs None \<noteq> []"
    by (simp add: filter_author_def truthy_string_def)
  have "(1::int) \<le> 1"
    using getStats_empty_input [of None "''zed''" ?rs] ne w by blast
  moreover have "getStats ?rs (Some ''zed'') =
      \<lparr>total' = 0, avgPerWeek = ''0'', topContributor = ''N/A'', weeks = Some 0\<rparr>"
    using getStats_empty_input [of None "''zed''" ?rs] by simp
  ultimately show ?thesis using w by simp
qed

subsection \<open>The CSV round trip\<close>

text \<open>
  C1. The writer doubles a quote inside the title; the reader drops every quote it sees and
  only toggles \<open>inQuotes\<close>, so it never gives a doubled quote back. A record whose title
  is \<^verbatim>\<open>say "hi", twice\<close> is written as one line and read back with the title
  \<^verbatim>\<open>say hi, twice\<close>: the comma survives, the quotes do not.
\<close>

theorem parseCSV_generate_csv_quote:
  "generate_csv
     [\<lparr>author = ''alice'', authorEmail = ''alice@x.org'', project = ''A'', repository = ''R'',
       closedDate = ''2024-01-01'', prId = 7,
       title = [CHR ''s'', CHR ''a'', CHR ''y'', CHR '' '', CHR 0x22, CHR ''h'', CHR ''i'', CHR 0x22,
                CHR '','', CHR '' '', CHR ''t'', CHR ''w'', CHR ''i'', CHR ''c'', CHR ''e''],
       linesAdded = 10, linesDeleted = 2\<rparr>]
   = csv_header @ [CHR 0x0A]
     @ ''alice,alice@x.org,A,R,2024-01-01,7,''
     @ [CHR 0x22] @ ''say '' @ [CHR 0x22, CHR 0x22] @ ''hi'' @ [CHR 0x22, CHR 0x22] @ '', twice'' @ [CHR 0x22]
     @ '',10,2''
   \<and> parseCSV (generate_csv
     [\<lparr>author = ''alice'', authorEmail = ''alice@x.org'', project = ''A'', repository = ''R'',
       closedDate = ''2024-01-01'', prId = 7,
       title = [CHR ''s'', CHR ''a'', CHR ''y'', CHR '' '', CHR 0x22, CHR ''h'', CHR ''i'', CHR 0x22,
                CHR '','', CHR '' '', CHR ''t'', CHR ''w'', CHR ''i'', CHR ''c'', CHR ''e''],
       linesAdded = 10, linesDeleted = 2\<rparr>])
   = [\<lparr>author = ''alice'', authorEmail = ''alice@x.org'', project = ''A'', repository = ''R'',
       closedDate = ''2024-01-01'', prId = 7, title = ''say hi, twice'',
       linesAdded = 10, linesDeleted = 2\<rparr>]"
  by code_simp

subsection \<open>Aggregation by day, author and project\<close>

lemma keys_set_obj_set: "fst ` set (obj_set ob k v) = insert k (fst ` set ob)"
  using keys_obj_set [of ob k v] by (auto simp flip: set_map split: if_splits)

lemma distinct_obj_set: "distinct (map fst ob) \<Longrightarrow> distinct (map fst (obj_set ob k v))"
  by (simp add: keys_obj_set)

lemma count_loop_keys:
  "count_loop rs (bd, ba, bp, au) = (bd', ba', bp', au') \<Longrightarrow>
   fst ` set bd' = fst ` set bd \<union> closedDate ` set rs
   \<and> (distinct (map fst bd) \<longrightarrow> distinct (map fst bd'))"
proof (induction rs arbitrary: bd ba bp au)
  case Nil
  then show ?case by simp
next
  case (Cons r rs)
  let ?bd1 = "case obj_get bd (closedDate r) of None \<Rightarrow> obj_set bd (closedDate r) [(''total'', 0)] | Some b \<Rightarrow> bd"
  let ?bucket = "case obj_get ?bd1 (closedDate r) of None \<Rightarrow> [] | Some b \<Rightarrow> b"
  let ?bd2 = "obj_set ?bd1 (closedDate r) (count_in_bucket ?bucket (author r))"
  have k1: "fst ` set ?bd1 = insert (closedDate r) (fst ` set bd)"
    using obj_get_None [of bd "closedDate r"]
    by (cases "obj_get bd (closedDate r)") (auto simp: keys_set_obj_set)
  have d1: "distinct (map fst bd) \<Longrightarrow> distinct (map fst ?bd1)"
    by (cases "obj_get bd (closedDate r)") (auto simp: distinct_obj_set)
  have k2: "fst ` set ?bd2 = insert (closedDate r) (fst ` set bd)"
    by (simp only: keys_set_obj_set k1) simp
  have d2: "distinct (map fst bd) \<Longrightarrow> distinct (map fst ?bd2)"
    using d1 by (simp only: distinct_obj_set)
  from Cons.prems obtain ba1 bp1 au1 where
    "count_loop rs (?bd2, ba1, bp1, au1) = (bd', ba', bp', au')"
    by (simp add: Let_def)
  from Cons.IH [OF this] k2 d2 show ?case
    by auto
qed

lemma sorted_first_Min:
  fixes xs :: "'a::linorder list"
  assumes "sorted xs" "xs \<noteq> []"
  shows "xs ! 0 = Min (set xs)"
proof -
  obtain x ys where xs: "xs = x # ys" using assms(2) by (cases xs) auto
  have "\<forall>y \<in> set xs. x \<le> y" using assms(1) unfolding xs by auto
  then have "Min (set xs) = x"
    by (intro Min_eqI) (auto simp: xs)
  then show ?thesis by (simp add: xs)
qed

lemma sorted_last_Max:
  fixes xs :: "'a::linorder list"
  assumes "sorted xs" "xs \<noteq> []"
  shows "xs ! (length xs - 1) = Max (set xs)"
proof -
  have len: "length xs - 1 < length xs" using assms(2) by simp
  have "y \<le> xs ! (length xs - 1)" if "y \<in> set xs" for y
  proof -
    from that obtain i where i: "i < length xs" "xs ! i = y" by (auto simp: in_set_conv_nth)
    then have "xs ! i \<le> xs ! (length xs - 1)"
      using assms(1) len by (intro sorted_nth_mono) auto
    then show ?thesis using i by simp
  qed
  then have "Max (set xs) = xs ! (length xs - 1)"
    using len by (intro Max_eqI) auto
  then show ?thesis by simp
qed

lemma iso_date_iff:
  "iso_date s = (\<exists>t. valid_date t \<and> 0 \<le> fst t \<and> fst t \<le> 9999 \<and> toISODate t = s)"
proof
  assume "iso_date s"
  then obtain y m d where "parse_iso_date s = Some (y, m, d)"
    by (auto simp: iso_date_def)
  from parse_iso_date_Some [OF this] show "\<exists>t. valid_date t \<and> 0 \<le> fst t \<and> fst t \<le> 9999 \<and> toISODate t = s"
    by (intro exI [of _ "(y, m, d)"]) auto
next
  assume "\<exists>t. valid_date t \<and> 0 \<le> fst t \<and> fst t \<le> 9999 \<and> toISODate t = s"
  then obtain y m d where "valid_date (y, m, d)" "0 \<le> y" "y \<le> 9999" "toISODate (y, m, d) = s"
    by auto
  then show "iso_date s"
    using parse_iso_date_toISODate [of y m d] by (auto simp: iso_date_def)
qed

lemma toISODate_le_dates:
  assumes "valid_date t" "0 \<le> fst t" "fst t \<le> 9999"
    and "valid_date u" "0 \<le> fst u" "fst u \<le> 9999"
  shows "(toISODate t \<le> toISODate u) = date_le t u"
proof -
  obtain y m d where t: "t = (y, m, d)" by (cases t) auto
  obtain y' m' d' where u: "u = (y', m', d')" by (cases u) auto
  show ?thesis
    using assms unfolding t u by (intro toISODate_le) simp_all
qed

lemma parse_iso_date_dates:
  assumes "parse_iso_date s = Some t"
  shows "valid_date t \<and> 0 \<le> fst t \<and> fst t \<le> 9999 \<and> toISODate t = s"
proof -
  obtain y m d where t: "t = (y, m, d)" by (cases t) auto
  show ?thesis using parse_iso_date_Some [of s y m d] assms unfolding t by auto
qed

lemma fill_gaps_days:
  fixes ob :: "'b obj"
  assumes zone: "- 86400000 < c" "c < 86400000"
    and dist: "distinct (map fst ob)"
    and ne: "ob \<noteq> []"
    and iso: "\<forall>k \<in> fst ` set ob. iso_date k"
  shows "\<exists>ob'. fill_gaps (fixed_zone c) e ob = Some ob'
      \<and> fst ` set ob' = {s. iso_date s \<and> Min (fst ` set ob) \<le> s \<and> s \<le> Max (fst ` set ob)}
      \<and> distinct (map fst ob')
      \<and> (\<forall>k b. obj_get ob' k = Some b \<and> k \<notin> fst ` set ob \<longrightarrow> b = e)"
proof -
  let ?K = "fst ` set ob"
  let ?days = "sort (obj_keys ob)"
  have fin: "finite ?K" and Kne: "?K \<noteq> {}" using ne by auto
  have set_days: "set ?days = ?K" by (simp add: set_obj_keys)
  have days_ne: "?days \<noteq> []" using set_days Kne by (metis set_empty)
  have first: "?days ! 0 = Min ?K"
    using sorted_first_Min [of ?days] days_ne set_days by simp
  have last: "?days ! (length (obj_keys ob) - Suc 0) = Max ?K"
    using sorted_last_Max [of ?days] days_ne set_days by simp
  have lo_in: "Min ?K \<in> ?K" and hi_in: "Max ?K \<in> ?K"
    using fin Kne by (auto intro: Min_in Max_in)
  obtain t0 where t0: "parse_iso_date (Min ?K) = Some t0"
    using iso lo_in by (auto simp: iso_date_def)
  obtain t1 where t1: "parse_iso_date (Max ?K) = Some t1"
    using iso hi_in by (auto simp: iso_date_def)
  note p0 = parse_iso_date_dates [OF t0] and p1 = parse_iso_date_dates [OF t1]
  show ?thesis
  proof (cases "length ?days > 1")
    case True
    have run: "fill_gaps (fixed_zone c) e ob = fill_missing_days (fixed_zone c) e (t0, 0) (t1, 0) ob"
      using True by (simp add: fill_gaps_def Let_def first last new_Date_def t0 t1)
    from fill_missing_days_fixed [OF zone, of t0 e t1 ob] p0
    obtain ob' where f: "fill_missing_days (fixed_zone c) e (t0, 0) (t1, 0) ob = Some ob'"
      and keys: "fst ` set ob' = ?K \<union> toISODate ` {t. valid_date t \<and> date_le t0 t \<and> date_le t t1}"
      and new: "\<forall>k b. obj_get ob k = None \<and> obj_get ob' k = Some b \<longrightarrow> b = e"
      and d': "distinct (map fst ob) \<longrightarrow> distinct (map fst ob')"
      by blast
    have axis: "fst ` set ob' = {s. iso_date s \<and> Min ?K \<le> s \<and> s \<le> Max ?K}"
    proof (intro set_eqI iffI)
      fix s
      assume "s \<in> fst ` set ob'"
      then consider "s \<in> ?K" | t where "valid_date t" "date_le t0 t" "date_le t t1" "s = toISODate t"
        unfolding keys by auto
      then show "s \<in> {s. iso_date s \<and> Min ?K \<le> s \<and> s \<le> Max ?K}"
      proof cases
        case 1
        then show ?thesis using iso fin by auto
      next
        case 2
        have y: "0 \<le> fst t" "fst t \<le> 9999"
          using date_le_year [OF 2(2)] date_le_year [OF 2(3)] p0 p1 by linarith+
        have "iso_date s"
          unfolding iso_date_iff using 2(1,4) y by blast
        moreover have "toISODate t0 \<le> toISODate t"
          using toISODate_le_dates [of t0 t] p0 2(1,2) y by simp
        moreover have "toISODate t \<le> toISODate t1"
          using toISODate_le_dates [of t t1] p1 2(1,3) y by simp
        ultimately show ?thesis using p0 p1 2(4) by simp
      qed
    next
      fix s
      assume "s \<in> {s. iso_date s \<and> Min ?K \<le> s \<and> s \<le> Max ?K}"
      then have s: "iso_date s" "Min ?K \<le> s" "s \<le> Max ?K" by auto
      from s(1) obtain t where t: "valid_date t" "0 \<le> fst t" "fst t \<le> 9999" "toISODate t = s"
        unfolding iso_date_iff by blast
      have "date_le t0 t"
        using toISODate_le_dates [of t0 t] p0 t s(2) by simp
      moreover have "date_le t t1"
        using toISODate_le_dates [of t t1] p1 t s(3) by simp
      ultimately show "s \<in> fst ` set ob'"
        unfolding keys using t by auto
    qed
    have "\<forall>k b. obj_get ob' k = Some b \<and> k \<notin> ?K \<longrightarrow> b = e"
      using new obj_get_None [of ob] by blast
    then show ?thesis
      using run f axis d' dist by auto
  next
    case False
    have run: "fill_gaps (fixed_zone c) e ob = Some ob"
      using False by (simp add: fill_gaps_def Let_def)
    have "distinct ?days" using dist by (simp add: distinct_obj_keys)
    then have "card ?K = length ?days"
      using set_days distinct_card by metis
    then have "card ?K \<le> 1" using False by simp
    moreover have "0 < card ?K" using fin Kne by (simp add: card_gt_0_iff)
    ultimately have "card ?K = 1" by linarith
    then obtain k0 where k0: "?K = {k0}" by (auto simp: card_1_singleton_iff)
    have "iso_date k0" using iso k0 by auto
    then have axis: "?K = {s. iso_date s \<and> Min ?K \<le> s \<and> s \<le> Max ?K}"
      unfolding k0 by auto
    have "\<forall>k b. obj_get ob k = Some b \<and> k \<notin> ?K \<longrightarrow> b = e"
    proof (intro allI impI)
      fix k b
      assume a: "obj_get ob k = Some b \<and> k \<notin> ?K"
      then have "k \<notin> ?K" by blast
      then have "obj_get ob k = None" using obj_get_None [of ob k] by blast
      with a show "b = e" by simp
    qed
    then show ?thesis
      using run axis dist by auto
  qed
qed

lemma impact_in_bucket_ok:
  assumes "authors_are_pairs bucket" and "a \<noteq> ''totalAdded''" and "a \<noteq> ''totalDeleted''"
  shows "\<exists>bucket'. impact_in_bucket bucket a la ld = Inr bucket' \<and> authors_are_pairs bucket'"
proof -
  let ?b1 = "if falsy_val (obj_get bucket a) then obj_set bucket a (Pair 0 0) else bucket"
  have "\<exists>x y. obj_get ?b1 a = Some (Pair x y)"
    using assms by (auto simp: authors_are_pairs_def falsy_val_def obj_get_set)
  then obtain x y where p: "obj_get ?b1 a = Some (Pair x y)" by blast
  have inv1: "authors_are_pairs ?b1"
    using assms(1) by (auto simp: authors_are_pairs_def obj_get_set)
  let ?b2 = "obj_set ?b1 a (Pair (x + la) (y + ld))"
  let ?b3 = "obj_set ?b2 ''totalAdded'' (add_number (obj_get ?b2 ''totalAdded'') la)"
  let ?b4 = "obj_set ?b3 ''totalDeleted'' (add_number (obj_get ?b3 ''totalDeleted'') ld)"
  have run: "impact_in_bucket bucket a la ld = Inr ?b4"
    unfolding impact_in_bucket_def Let_def p add_to_pair_def by simp
  have "authors_are_pairs ?b4"
    using inv1 unfolding authors_are_pairs_def obj_get_set by auto
  with run show ?thesis by blast
qed

lemma authors_are_pairs_empty: "authors_are_pairs empty_impact_bucket"
  by (auto simp: authors_are_pairs_def empty_impact_bucket_def obj_get_def)

lemma authors_are_pairs_Nil: "authors_are_pairs []"
  by (simp add: authors_are_pairs_def obj_get_def)

lemma impact_loop_returns:
  assumes "\<forall>r \<in> set rs. author r \<noteq> ''totalAdded'' \<and> author r \<noteq> ''totalDeleted''"
    and "buckets_ok bd"
  shows "\<exists>st. impact_loop rs (bd, ba, bp, au) = Inr st"
  using assms
proof (induction rs arbitrary: bd ba bp au)
  case Nil
  then show ?case by simp
next
  case (Cons r rs)
  let ?day = "closedDate r"
  let ?bd1 = "case obj_get bd ?day of None \<Rightarrow> obj_set bd ?day empty_impact_bucket | Some b \<Rightarrow> bd"
  let ?bucket = "case obj_get ?bd1 ?day of None \<Rightarrow> [] | Some b \<Rightarrow> b"
  have ok1: "buckets_ok ?bd1"
    using Cons.prems(2)
    by (auto simp: buckets_ok_def obj_get_set authors_are_pairs_empty split: option.splits if_splits)
  have "authors_are_pairs ?bucket"
    using ok1 by (auto simp: buckets_ok_def authors_are_pairs_Nil split: option.splits)
  then obtain bucket' where b: "impact_in_bucket ?bucket (author r) (linesAdded r) (linesDeleted r) = Inr bucket'"
    and inv: "authors_are_pairs bucket'"
    using impact_in_bucket_ok Cons.prems(1) by (metis list.set_intros(1))
  have ok2: "buckets_ok (obj_set ?bd1 ?day bucket')"
    using ok1 inv by (auto simp: buckets_ok_def obj_get_set split: if_splits)
  have rest: "\<forall>r \<in> set rs. author r \<noteq> ''totalAdded'' \<and> author r \<noteq> ''totalDeleted''"
    using Cons.prems(1) by simp
  show ?case
    using Cons.IH [OF rest ok2] b by (simp add: Let_def)
qed

lemma impact_loop_keys:
  "impact_loop rs (bd, ba, bp, au) = Inr (bd', ba', bp', au') \<Longrightarrow>
   fst ` set bd' = fst ` set bd \<union> closedDate ` set rs
   \<and> (distinct (map fst bd) \<longrightarrow> distinct (map fst bd'))"
proof (induction rs arbitrary: bd ba bp au)
  case Nil
  then show ?case by simp
next
  case (Cons r rs)
  let ?day = "closedDate r"
  let ?bd1 = "case obj_get bd ?day of None \<Rightarrow> obj_set bd ?day empty_impact_bucket | Some b \<Rightarrow> bd"
  let ?bucket = "case obj_get ?bd1 ?day of None \<Rightarrow> [] | Some b \<Rightarrow> b"
  have k1: "fst ` set ?bd1 = insert ?day (fst ` set bd)"
    using obj_get_None [of bd ?day]
    by (cases "obj_get bd ?day") (auto simp: keys_set_obj_set)
  have d1: "distinct (map fst bd) \<Longrightarrow> distinct (map fst ?bd1)"
    by (cases "obj_get bd ?day") (auto simp: distinct_obj_set)
  from Cons.prems obtain bucket' ba1 bp1 au1 where
    run: "impact_loop rs (obj_set ?bd1 ?day bucket', ba1, bp1, au1) = Inr (bd', ba', bp', au')"
    by (auto simp: Let_def split: sum.splits)
  have k2: "fst ` set (obj_set ?bd1 ?day bucket') = insert ?day (fst ` set bd)"
    by (simp only: keys_set_obj_set k1) simp
  have d2: "distinct (map fst bd) \<Longrightarrow> distinct (map fst (obj_set ?bd1 ?day bucket'))"
    using d1 by (simp only: distinct_obj_set)
  from Cons.IH [OF run] k2 d2 show ?case
    by auto
qed

lemma days_axis:
  fixes bd :: "'b obj"
  assumes zone: "- 86400000 < c" "c < 86400000"
    and keys: "fst ` set bd = closedDate ` set records"
    and dist: "distinct (map fst bd)"
    and ne: "records \<noteq> []"
    and iso: "\<forall>r \<in> set records. iso_date (closedDate r)"
  shows "\<exists>bd'. fill_gaps (fixed_zone c) e bd = Some bd'
       \<and> sorted (sort (obj_keys bd'))
       \<and> distinct (sort (obj_keys bd'))
       \<and> set (sort (obj_keys bd')) =
           {s. iso_date s \<and> Min (closedDate ` set records) \<le> s \<and> s \<le> Max (closedDate ` set records)}
       \<and> (\<forall>s \<in> set (sort (obj_keys bd')).
             s \<notin> closedDate ` set records \<longrightarrow> obj_get bd' s = Some e)"
proof -
  have bd_ne: "bd \<noteq> []" using keys ne by auto
  have iso': "\<forall>k \<in> fst ` set bd. iso_date k" using keys iso by auto
  from fill_gaps_days [OF zone dist bd_ne iso', of e]
  obtain bd' where run: "fill_gaps (fixed_zone c) e bd = Some bd'"
    and axis: "fst ` set bd' = {s. iso_date s \<and> Min (fst ` set bd) \<le> s \<and> s \<le> Max (fst ` set bd)}"
    and d': "distinct (map fst bd')"
    and new: "\<forall>k b. obj_get bd' k = Some b \<and> k \<notin> fst ` set bd \<longrightarrow> b = e"
    by blast
  have set_days: "set (sort (obj_keys bd')) =
      {s. iso_date s \<and> Min (closedDate ` set records) \<le> s \<and> s \<le> Max (closedDate ` set records)}"
    using axis keys by (simp add: set_obj_keys)
  have "obj_get bd' s = Some e"
    if "s \<in> set (sort (obj_keys bd'))" "s \<notin> closedDate ` set records" for s
  proof -
    have "s \<in> fst ` set bd'" using that(1) by (simp add: set_obj_keys)
    then obtain b where b: "obj_get bd' s = Some b"
      using obj_get_None [of bd' s] by auto
    then have "b = e" using new that(2) keys by auto
    with b show ?thesis by simp
  qed
  then show ?thesis
    using run set_days d' by (simp add: distinct_obj_keys)
qed

text \<open>
  In a runtime whose local time zone has a fixed offset from UTC (no daylight saving), and
  for a non-empty list of records whose \<open>closedDate\<close> is a calendar date in the form
  \<^verbatim>\<open>YYYY-MM-DD\<close>, the day axis of \<open>processData\<close> is ascending without repetition and
  holds exactly the calendar dates from the least to the greatest \<open>closedDate\<close>
  inclusive; a day of the axis on which no record falls has the bucket \<open>{total: 0}\<close>.
  The same holds for the axis and the buckets \<open>{totalAdded: 0, totalDeleted: 0}\<close> of
  \<open>processImpactData\<close>, which returns unless an author is called \<^verbatim>\<open>totalAdded\<close> or
  \<^verbatim>\<open>totalDeleted\<close>.
\<close>

lemma gap_fill_days_axis_fixed_zone:
  assumes zone: "- 86400000 < c" "c < 86400000"
    and ne: "records \<noteq> []"
    and iso: "\<forall>r \<in> set records. iso_date (closedDate r)"
  shows "\<exists>v. processData (fixed_zone c) records = Some v
      \<and> sorted (days v) \<and> distinct (days v)
      \<and> set (days v) =
          {s. iso_date s \<and> Min (closedDate ` set records) \<le> s \<and> s \<le> Max (closedDate ` set records)}
      \<and> (\<forall>s \<in> set (days v). s \<notin> closedDate ` set records \<longrightarrow> obj_get (byDay v) s = Some [(''total'', 0)])"
    and "\<exists>r. processImpactData (fixed_zone c) records = Some r
      \<and> (\<forall>v. r = Inr v \<longrightarrow>
            sorted (i_days v) \<and> distinct (i_days v)
            \<and> set (i_days v) =
                {s. iso_date s \<and> Min (closedDate ` set records) \<le> s \<and> s \<le> Max (closedDate ` set records)}
            \<and> (\<forall>s \<in> set (i_days v).
                  s \<notin> closedDate ` set records \<longrightarrow>
                  obj_get (i_byDay v) s = Some [(''totalAdded'', Num 0), (''totalDeleted'', Num 0)]))
      \<and> ((\<forall>r \<in> set records. author r \<noteq> ''totalAdded'' \<and> author r \<noteq> ''totalDeleted'') \<longrightarrow>
            (\<exists>v. r = Inr v))"
proof -
  obtain bd ba bp au where cl: "count_loop records ([], [], [], []) = (bd, ba, bp, au)"
    by (cases "count_loop records ([], [], [], [])") auto
  from count_loop_keys [OF cl]
  have keys: "fst ` set bd = closedDate ` set records" and dist: "distinct (map fst bd)"
    by auto
  from days_axis [OF zone keys dist ne iso, of "[(''total'', 0)]"]
  obtain bd' where run: "fill_gaps (fixed_zone c) [(''total'', 0)] bd = Some bd'"
    and ax: "sorted (sort (obj_keys bd'))" "distinct (sort (obj_keys bd'))"
      "set (sort (obj_keys bd')) =
           {s. iso_date s \<and> Min (closedDate ` set records) \<le> s \<and> s \<le> Max (closedDate ` set records)}"
      "\<forall>s \<in> set (sort (obj_keys bd')).
             s \<notin> closedDate ` set records \<longrightarrow> obj_get bd' s = Some [(''total'', 0)]"
    by blast
  let ?v = "\<lparr>byDay = bd', byAuthor = ba, byProject = bp, days = sort (obj_keys bd'),
             authorList = sort_key (\<lambda>a. - or_zero (obj_get ba a)) au, totalPRs = length records\<rparr>"
  have "processData (fixed_zone c) records = Some ?v"
    by (simp add: processData_def cl run Let_def)
  then show "\<exists>v. processData (fixed_zone c) records = Some v
      \<and> sorted (days v) \<and> distinct (days v)
      \<and> set (days v) =
          {s. iso_date s \<and> Min (closedDate ` set records) \<le> s \<and> s \<le> Max (closedDate ` set records)}
      \<and> (\<forall>s \<in> set (days v). s \<notin> closedDate ` set records \<longrightarrow> obj_get (byDay v) s = Some [(''total'', 0)])"
    using ax by (intro exI [of _ ?v]) simp
  show "\<exists>r. processImpactData (fixed_zone c) records = Some r
      \<and> (\<forall>v. r = Inr v \<longrightarrow>
            sorted (i_days v) \<and> distinct (i_days v)
            \<and> set (i_days v) =
                {s. iso_date s \<and> Min (closedDate ` set records) \<le> s \<and> s \<le> Max (closedDate ` set records)}
            \<and> (\<forall>s \<in> set (i_days v).
                  s \<notin> closedDate ` set records \<longrightarrow>
                  obj_get (i_byDay v) s = Some [(''totalAdded'', Num 0), (''totalDeleted'', Num 0)]))
      \<and> ((\<forall>r \<in> set records. author r \<noteq> ''totalAdded'' \<and> author r \<noteq> ''totalDeleted'') \<longrightarrow>
            (\<exists>v. r = Inr v))"
  proof (cases "impact_loop records ([], [], [], [])")
    case (Inl err)
    have no: "\<not> (\<forall>r \<in> set records. author r \<noteq> ''totalAdded'' \<and> author r \<noteq> ''totalDeleted'')"
    proof
      assume a: "\<forall>r \<in> set records. author r \<noteq> ''totalAdded'' \<and> author r \<noteq> ''totalDeleted''"
      have "buckets_ok []" by (simp add: buckets_ok_def obj_get_def)
      from impact_loop_returns [OF a this, of "[]" "[]" "[]"] Inl show False by auto
    qed
    have "processImpactData (fixed_zone c) records = Some (Inl err)"
      by (simp add: processImpactData_def Inl)
    then show ?thesis using no by auto
  next
    case (Inr st)
    obtain bd2 ba2 bp2 au2 where st: "st = (bd2, ba2, bp2, au2)" by (cases st) auto
    from impact_loop_keys [OF Inr [unfolded st]]
    have keys2: "fst ` set bd2 = closedDate ` set records" and dist2: "distinct (map fst bd2)"
      by auto
    from days_axis [OF zone keys2 dist2 ne iso, of empty_impact_bucket]
    obtain bd3 where run2: "fill_gaps (fixed_zone c) empty_impact_bucket bd2 = Some bd3"
      and ax2: "sorted (sort (obj_keys bd3))" "distinct (sort (obj_keys bd3))"
        "set (sort (obj_keys bd3)) =
           {s. iso_date s \<and> Min (closedDate ` set records) \<le> s \<and> s \<le> Max (closedDate ` set records)}"
        "\<forall>s \<in> set (sort (obj_keys bd3)).
             s \<notin> closedDate ` set records \<longrightarrow> obj_get bd3 s = Some empty_impact_bucket"
      by blast
    obtain w where w: "processImpactData (fixed_zone c) records = Some (Inr w)"
      and wd: "i_days w = sort (obj_keys bd3)" and wb: "i_byDay w = bd3"
      by (simp add: processImpactData_def Inr st run2 Let_def)
    show ?thesis
      using w ax2 by (intro exI [of _ "Inr w"]) (simp add: wd wb empty_impact_bucket_def)
  qed
qed

subsection \<open>Daylight saving time\<close>

lemma date_le_antisym: "date_le t u \<Longrightarrow> date_le u t \<Longrightarrow> t = u"
  by (cases t; cases u) auto

lemma keys_add_missing:
  "fst ` set (case obj_get ob k of None \<Rightarrow> obj_set ob k e | Some b \<Rightarrow> ob) = insert k (fst ` set ob)"
proof (cases "obj_get ob k")
  case None
  then show ?thesis by (simp add: keys_set_obj_set)
next
  case (Some b)
  then have "k \<in> fst ` set ob"
    using obj_get_None [of ob k] by auto
  with Some show ?thesis by auto
qed

lemma ny_step_summer:
  assumes v: "valid_date t"
    and lo: "date_le (2024, 3, 10) t"
    and hi: "date_le (next_day t) (2024, 11, 2)"
  shows "setDate_next new_york_2024 (t, 82800000) = (next_day t, 82800000)"
proof -
  have tn: "date_le t (next_day t)" by (rule date_le_next_day)
  have t_hi: "date_le t (2024, 11, 2)" using tn hi by (rule date_le_trans)
  have a2: "\<not> date_le (2024, 11, 3) t"
  proof
    assume "date_le (2024, 11, 3) t"
    then have "date_le (2024, 11, 3) (2024, 11, 2)" using t_hi by (rule date_le_trans)
    then show False by simp
  qed
  have a3: "(2024, 11, 3) \<noteq> t" using a2 date_le_refl by metis
  have b1: "date_le (2024, 3, 10) (next_day t)" using lo tn by (rule date_le_trans)
  have b1': "(2024, 3, 10) \<noteq> next_day t"
  proof
    assume e: "(2024, 3, 10) = next_day t"
    have "date_le (next_day t) (2024, 3, 10)" unfolding e [symmetric] by simp
    then have "date_le t (2024, 3, 10) \<and> t \<noteq> (2024, 3, 10)"
      using next_day_least [OF v, of "(2024, 3, 10)"] by (simp add: days_in_month_def)
    then show False using lo date_le_antisym by blast
  qed
  have b2: "\<not> date_le (2024, 11, 3) (next_day t)"
  proof
    assume "date_le (2024, 11, 3) (next_day t)"
    then have "date_le (2024, 11, 3) (2024, 11, 2)" using hi by (rule date_le_trans)
    then show False by simp
  qed
  have b3: "(2024, 11, 3) \<noteq> next_day t" using b2 date_le_refl by metis
  have off1: "utc_offset new_york_2024 (t, 82800000) = - 14400000"
    using lo a2 a3 by (simp add: new_york_2024_def jsdate_le_def)
  have loc: "shift (t, 82800000) (- 14400000) = (t, 68400000)"
    by (simp add: shift_def add_days_simps)
  have off2: "local_offset new_york_2024 (next_day t, 68400000) = - 14400000"
    using b1 b1' b2 b3 by (simp add: new_york_2024_def jsdate_le_def)
  have ret: "shift (next_day t, 68400000) 14400000 = (next_day t, 82800000)"
    by (simp add: shift_def add_days_simps)
  show ?thesis
    unfolding setDate_next_def Let_def off1 loc by (simp add: off2 ret)
qed

lemma ny_step_nov2: "setDate_next new_york_2024 ((2024, 11, 2), 82800000) = ((2024, 11, 4), 0)"
  by code_simp

lemma ny_step_nov4: "setDate_next new_york_2024 ((2024, 11, 4), 0) = ((2024, 11, 5), 0)"
  by code_simp

lemma ny_step_mar10: "setDate_next new_york_2024 ((2024, 3, 10), 0) = ((2024, 3, 10), 82800000)"
  by code_simp

lemma toISODate_nov4: "toISODate (2024, 11, 4) = ''2024-11-04''"
  by code_simp

lemma ny_summer_loop:
  "valid_date t \<Longrightarrow> date_le (2024, 3, 10) t \<Longrightarrow> date_le t (2024, 11, 2) \<Longrightarrow>
   \<exists>ob'. fill_missing_days new_york_2024 e (t, 82800000) ((2024, 11, 4), 0) ob = Some ob'
      \<and> fst ` set ob' =
          insert ''2024-11-04'' (fst ` set ob
            \<union> toISODate ` {u. valid_date u \<and> date_le t u \<and> date_le u (2024, 11, 2)})"
proof (induction "nat (2024 * 500 + 449 - date_rank t)" arbitrary: t ob rule: less_induct)
  case less
  let ?ob = "case obj_get ob (toISODate t) of None \<Rightarrow> obj_set ob (toISODate t) e | Some b \<Rightarrow> ob"
  have t4: "date_le t (2024, 11, 4)"
    using less.prems(3) date_le_trans [of t "(2024, 11, 2)" "(2024, 11, 4)"] by simp
  have ne4: "t \<noteq> (2024, 11, 4)"
    using less.prems(3) by auto
  have guard: "jsdate_le (t, 82800000) ((2024, 11, 4), 0)"
    using t4 ne4 by (simp add: jsdate_le_def)
  have unfold: "fill_missing_days new_york_2024 e (t, 82800000) ((2024, 11, 4), 0) ob =
      fill_missing_days new_york_2024 e (setDate_next new_york_2024 (t, 82800000)) ((2024, 11, 4), 0) ?ob"
    using guard by (subst fill_missing_days.simps) (simp add: Let_def)
  show ?case
  proof (cases "t = (2024, 11, 2)")
    case True
    let ?ob2 = "case obj_get ?ob ''2024-11-04'' of None \<Rightarrow> obj_set ?ob ''2024-11-04'' e | Some b \<Rightarrow> ?ob"
    have "fill_missing_days new_york_2024 e ((2024, 11, 4), 0) ((2024, 11, 4), 0) ?ob =
        fill_missing_days new_york_2024 e ((2024, 11, 5), 0) ((2024, 11, 4), 0) ?ob2"
      by (subst fill_missing_days.simps)
         (simp add: jsdate_le_def Let_def ny_step_nov4 toISODate_nov4 del: toISODate.simps)
    also have "\<dots> = Some ?ob2"
      by (subst fill_missing_days.simps) (simp add: jsdate_le_def)
    finally have run: "fill_missing_days new_york_2024 e (t, 82800000) ((2024, 11, 4), 0) ob = Some ?ob2"
      unfolding unfold using True by (simp only: ny_step_nov2)
    have one: "{u. valid_date u \<and> date_le t u \<and> date_le u (2024, 11, 2)} = {t}"
      using less.prems(1) True date_le_antisym [of "(2024, 11, 2)"] by (auto simp: date_le_refl)
    have "fst ` set ?ob2 = insert ''2024-11-04'' (insert (toISODate t) (fst ` set ob))"
      by (simp only: keys_add_missing)
    then show ?thesis
      using run unfolding one by auto
  next
    case False
    have nx: "date_le (next_day t) (2024, 11, 2)"
      using next_day_least [OF less.prems(1), of "(2024, 11, 2)"] less.prems(3) False
      by (simp add: days_in_month_def)
    have step: "setDate_next new_york_2024 (t, 82800000) = (next_day t, 82800000)"
      using less.prems(1,2) nx by (rule ny_step_summer)
    have lo': "date_le (2024, 3, 10) (next_day t)"
      using less.prems(2) date_le_next_day by (rule date_le_trans)
    have bound: "date_rank t \<le> 2024 * 500 + 448"
      using date_rank_bound [OF less.prems(3)] by simp
    have smaller: "nat (2024 * 500 + 449 - date_rank (next_day t)) < nat (2024 * 500 + 449 - date_rank t)"
      using date_rank_next_day [of t] bound by linarith
    from less.hyps [OF smaller valid_next_day [OF less.prems(1)] lo' nx, of ?ob]
    obtain ob' where run': "fill_missing_days new_york_2024 e (next_day t, 82800000) ((2024, 11, 4), 0) ?ob = Some ob'"
      and k': "fst ` set ob' = insert ''2024-11-04'' (fst ` set ?ob
            \<union> toISODate ` {u. valid_date u \<and> date_le (next_day t) u \<and> date_le u (2024, 11, 2)})"
      by blast
    have range: "{u. valid_date u \<and> date_le t u \<and> date_le u (2024, 11, 2)} =
        insert t {u. valid_date u \<and> date_le (next_day t) u \<and> date_le u (2024, 11, 2)}"
      using less.prems(1,3) by (auto simp: next_day_least date_le_refl)
    have "fill_missing_days new_york_2024 e (t, 82800000) ((2024, 11, 4), 0) ob = Some ob'"
      unfolding unfold step by (rule run')
    moreover have "fst ` set ob' = insert ''2024-11-04'' (fst ` set ob
            \<union> toISODate ` {u. valid_date u \<and> date_le t u \<and> date_le u (2024, 11, 2)})"
      unfolding k' keys_add_missing range by auto
    ultimately show ?thesis by blast
  qed
qed

lemma ny_fill_gaps:
  fixes ob :: "'b obj"
  assumes keys: "map fst ob = [''2024-03-10'', ''2024-11-04'']"
  shows "\<exists>ob'. fill_gaps new_york_2024 e ob = Some ob'
     \<and> ''2024-11-02'' \<in> fst ` set ob' \<and> ''2024-11-03'' \<notin> fst ` set ob'
     \<and> ''2024-11-04'' \<in> fst ` set ob'"
proof -
  have K: "fst ` set ob = {''2024-03-10'', ''2024-11-04''}"
    using keys by (simp flip: set_map)
  have "obj_keys ob = [''2024-03-10'', ''2024-11-04'']"
    unfolding obj_keys_def keys by code_simp
  then have days0: "sort (obj_keys ob) = [''2024-03-10'', ''2024-11-04'']"
    by simp
  have d0: "new_Date ''2024-03-10'' = Some ((2024, 3, 10), 0)"
    and d1: "new_Date ''2024-11-04'' = Some ((2024, 11, 4), 0)"
    by code_simp+
  have run0: "fill_gaps new_york_2024 e ob =
      fill_missing_days new_york_2024 e ((2024, 3, 10), 0) ((2024, 11, 4), 0) ob"
    by (simp add: fill_gaps_def days0 d0 d1)
  have iso0: "toISODate (2024, 3, 10) = ''2024-03-10''"
    by code_simp
  have "obj_get ob ''2024-03-10'' \<noteq> None"
    using K by (simp add: obj_get_None)
  then have run1: "fill_missing_days new_york_2024 e ((2024, 3, 10), 0) ((2024, 11, 4), 0) ob =
      fill_missing_days new_york_2024 e ((2024, 3, 10), 82800000) ((2024, 11, 4), 0) ob"
    by (subst fill_missing_days.simps)
       (auto simp add: jsdate_le_def Let_def ny_step_mar10 iso0 simp del: toISODate.simps)
  from ny_summer_loop [of "(2024, 3, 10)" e ob]
  obtain ob' where run2: "fill_missing_days new_york_2024 e ((2024, 3, 10), 82800000) ((2024, 11, 4), 0) ob = Some ob'"
    and k: "fst ` set ob' = insert ''2024-11-04'' (fst ` set ob
            \<union> toISODate ` {u. valid_date u \<and> date_le (2024, 3, 10) u \<and> date_le u (2024, 11, 2)})"
    by (auto simp: days_in_month_def)
  have nov2: "toISODate (2024, 11, 2) = ''2024-11-02''" and nov3: "toISODate (2024, 11, 3) = ''2024-11-03''"
    by code_simp+
  have in2: "''2024-11-02'' \<in> fst ` set ob'"
  proof -
    have "(2024, 11, 2) \<in> {u. valid_date u \<and> date_le (2024, 3, 10) u \<and> date_le u (2024, 11, 2)}"
      by (simp add: days_in_month_def)
    then have "toISODate (2024, 11, 2) \<in> fst ` set ob'"
      unfolding k by blast
    then show ?thesis by (simp only: nov2)
  qed
  have out3: "''2024-11-03'' \<notin> fst ` set ob'"
  proof
    assume "''2024-11-03'' \<in> fst ` set ob'"
    then have "''2024-11-03'' \<in> toISODate ` {u. valid_date u \<and> date_le (2024, 3, 10) u \<and> date_le u (2024, 11, 2)}"
      unfolding k K by simp
    then obtain u where u: "valid_date u" "date_le (2024, 3, 10) u" "date_le u (2024, 11, 2)"
      and eq: "toISODate u = toISODate (2024, 11, 3)"
      unfolding nov3 by auto
    obtain y m d where ut: "u = (y, m, d)" by (cases u) auto
    have y: "0 \<le> y" "y \<le> 9999"
      using date_le_year [OF u(2)] date_le_year [OF u(3)] by (simp_all add: ut)
    have "valid_date (2024, 11, 3)" by (simp add: days_in_month_def)
    then have "u = (2024, 11, 3)"
      using toISODate_eq [of y m d 2024 11 3] u(1) y eq unfolding ut by simp
    then show False using u(3) by simp
  qed
  show ?thesis
    using run0 run1 run2 in2 out3 k by auto
qed

text \<open>
  C2. The claim is that the day axis holds every calendar date between the earliest and the
  latest \<open>closedDate\<close>. The loop that adds the missing days steps with
  \<^verbatim>\<open>d.setDate(d.getDate() + 1)\<close>, which works in the local time of the runtime, and
  names the day with \<^verbatim>\<open>d.toISOString()\<close>, which works in UTC. In the zone
  America/New_York, for records closed on 2024-03-10 and 2024-11-04, the step taken on
  2024-03-10 (the start of daylight saving time) leaves \<open>d\<close> at 23:00 UTC of each day,
  and the step taken at the end of daylight saving time goes from 2024-11-02T23:00Z to
  2024-11-04T00:00Z: the axis of \<open>processData\<close> and of \<open>processImpactData\<close> holds
  2024-11-02 and 2024-11-04 but not 2024-11-03.
\<close>

theorem processData_skips_day_after_daylight_saving:
  "\<exists>v w. processData new_york_2024
        [\<lparr>author = ''alice'', authorEmail = ''a@x.org'', project = ''A'', repository = ''R'',
          closedDate = ''2024-03-10'', prId = 1, title = ''one'', linesAdded = 10, linesDeleted = 2\<rparr>,
         \<lparr>author = ''bob'', authorEmail = ''b@x.org'', project = ''A'', repository = ''R'',
          closedDate = ''2024-11-04'', prId = 2, title = ''two'', linesAdded = 4, linesDeleted = 0\<rparr>] = Some v
     \<and> processImpactData new_york_2024
        [\<lparr>author = ''alice'', authorEmail = ''a@x.org'', project = ''A'', repository = ''R'',
          closedDate = ''2024-03-10'', prId = 1, title = ''one'', linesAdded = 10, linesDeleted = 2\<rparr>,
         \<lparr>author = ''bob'', authorEmail = ''b@x.org'', project = ''A'', repository = ''R'',
          closedDate = ''2024-11-04'', prId = 2, title = ''two'', linesAdded = 4, linesDeleted = 0\<rparr>] = Some (Inr w)
     \<and> ''2024-11-02'' \<in> set (days v) \<and> ''2024-11-03'' \<notin> set (days v) \<and> ''2024-11-04'' \<in> set (days v)
     \<and> ''2024-11-02'' \<in> set (i_days w) \<and> ''2024-11-03'' \<notin> set (i_days w) \<and> ''2024-11-04'' \<in> set (i_days w)"
proof -
  let ?rs = "[\<lparr>author = ''alice'', authorEmail = ''a@x.org'', project = ''A'', repository = ''R'',
          closedDate = ''2024-03-10'', prId = 1, title = ''one'', linesAdded = 10, linesDeleted = 2\<rparr>,
         \<lparr>author = ''bob'', authorEmail = ''b@x.org'', project = ''A'', repository = ''R'',
          closedDate = ''2024-11-04'', prId = 2, title = ''two'', linesAdded = 4, linesDeleted = 0\<rparr>]"
  obtain bd ba bp au where cl: "count_loop ?rs ([], [], [], []) = (bd, ba, bp, au)"
    by (cases "count_loop ?rs ([], [], [], [])") auto
  have "map fst (fst (count_loop ?rs ([], [], [], []))) = [''2024-03-10'', ''2024-11-04'']"
    by code_simp
  then have kb: "map fst bd = [''2024-03-10'', ''2024-11-04'']"
    unfolding cl fst_conv .
  from ny_fill_gaps [OF kb, of "[(''total'', 0)]"]
  obtain bd' where g: "fill_gaps new_york_2024 [(''total'', 0)] bd = Some bd'"
    and m: "''2024-11-02'' \<in> fst ` set bd'" "''2024-11-03'' \<notin> fst ` set bd'"
      "''2024-11-04'' \<in> fst ` set bd'"
    by blast
  let ?v = "\<lparr>byDay = bd', byAuthor = ba, byProject = bp, days = sort (obj_keys bd'),
             authorList = sort_key (\<lambda>a. - or_zero (obj_get ba a)) au, totalPRs = length ?rs\<rparr>"
  have pv: "processData new_york_2024 ?rs = Some ?v"
    by (simp only: processData_def cl g Let_def prod.case option.case)
  have "\<exists>st. impact_loop ?rs ([], [], [], []) = Inr st"
    by (rule impact_loop_returns) (simp_all add: buckets_ok_def obj_get_def)
  then obtain bd2 ba2 bp2 au2 where il: "impact_loop ?rs ([], [], [], []) = Inr (bd2, ba2, bp2, au2)"
    by (metis prod_cases4)
  have "map_sum id (\<lambda>st. map fst (fst st)) (impact_loop ?rs ([], [], [], []))
      = Inr [''2024-03-10'', ''2024-11-04'']"
    by code_simp
  then have kb2: "map fst bd2 = [''2024-03-10'', ''2024-11-04'']"
    unfolding il by (simp only: sum.simps map_sum.simps fst_conv)
  from ny_fill_gaps [OF kb2, of empty_impact_bucket]
  obtain bd3 where g2: "fill_gaps new_york_2024 empty_impact_bucket bd2 = Some bd3"
    and m2: "''2024-11-02'' \<in> fst ` set bd3" "''2024-11-03'' \<notin> fst ` set bd3"
      "''2024-11-04'' \<in> fst ` set bd3"
    by blast
  define w where "w = \<lparr>i_byDay = bd3, i_byAuthor = ba2, i_byProject = bp2,
      i_days = sort (obj_keys bd3),
      i_authorList = sort_key (\<lambda>a. - (case obj_get ba2 a of None \<Rightarrow> 0 | Some (x, y) \<Rightarrow> x + y)) au2,
      totalLinesAdded = foldl (\<lambda>s e. s + fst (snd e)) 0 (obj_entries ba2),
      totalLinesDeleted = foldl (\<lambda>s e. s + snd (snd e)) 0 (obj_entries ba2)\<rparr>"
  have pw: "processImpactData new_york_2024 ?rs = Some (Inr w)"
    by (simp only: processImpactData_def il g2 Let_def prod.case option.case sum.case w_def)
  have wd: "i_days w = sort (obj_keys bd3)"
    by (simp add: w_def)
  show ?thesis
    using pv pw m m2 by (intro exI [of _ ?v] exI [of _ w]) (simp add: wd set_obj_keys)
qed

text \<open>
  C9. The count of a day is kept in the property \<^verbatim>\<open>total\<close> of the day's bucket, next
  to one property per author. For a record whose author is called \<^verbatim>\<open>total\<close> the two
  are the same property, and both increments hit it: one record gives the day the total 2,
  while \<open>totalPRs\<close>, \<open>byAuthor\<close> and \<open>byProject\<close> count 1.
\<close>

theorem processData_author_named_total:
  "processData (fixed_zone 0)
     [\<lparr>author = ''total'', authorEmail = ''t@x.org'', project = ''A'', repository = ''R'',
       closedDate = ''2024-01-01'', prId = 7, title = ''t'', linesAdded = 0, linesDeleted = 0\<rparr>]
   = Some \<lparr>byDay = [(''2024-01-01'', [(''total'', 2)])],
      byAuthor = [(''total'', 1)],
      byProject = [(''A'', 1)],
      days = [''2024-01-01''],
      authorList = [''total''],
      totalPRs = 1\<rparr>"
  by code_simp

end
